theory Spec2Isabelle
  imports Main "HOL-Library.Word" "HOL-Library.Signed_Division"
begin

unbundle bit_operations_syntax

section \<open>The emulator thread of CEmu: \<^verbatim>\<open>gui/qt/emuthread.cpp\<close>\<close>

text \<open>
  The theory embeds the member functions of \<^verbatim>\<open>EmuThread\<close> as functions on a record of
  the object's members and of the globals of the emulator core that the file reads and
  writes. Qt signals, sleeps and calls into the core are appended to a trace, in program
  order. C \<^verbatim>\<open>int\<close>s are HOL integers: every quantity of the console channel lies between
  \<^verbatim>\<open>-CONSOLE_BUFFER_SIZE\<close> and the length of a formatted message plus one, and the
  clock counts nanoseconds in 64 bits, the largest count the file computes being three
  times an elapsed time (97 years of it fit), so no operation of the file leaves the
  range of its type on the inputs considered here.
\<close>

subsection \<open>Data\<close>

type_synonym byte = "8 word"

text \<open>
  The constants that \<^verbatim>\<open>emuthread.h\<close>, \<^verbatim>\<open>core/cpu.h\<close>, \<^verbatim>\<open>core/link.h\<close> and the debugger's
  header declare. These headers are not part of the sources at hand, so the functions
  below take the constants as a parameter.
\<close>

record header =
  CONSOLE_BUFFER_SIZE :: int
  EVENT_RESET :: "32 word"
  LINK_GOOD :: int
  DBG_USER :: int

text \<open>Everything the thread does that another thread or the core can observe.\<close>

datatype action =
    ConsoleStr int
  | Saved bool
  | SentFile string int
  | ReceiveReady
  | ActualSpeedChanged int
  | Stopped
  | Usleep nat
  | Sleep_until int
  | Yield
  | Debug_clear_temp_break
  | Close_debugger
  | Open_debugger int int
  | Wait_ms nat
  | Terminate

record EmuThread =
  consoleBuffer :: "byte list"
  consoleWritePosition :: int
  consoleWriteSemaphore :: int
  consoleReadSemaphore :: int
  speed :: int
  actualSpeed :: int
  throttleOn :: bool
  lastTime :: int
  doReset :: bool
  enterDebugger :: bool
  enterSendState :: bool
  enterReceiveState :: bool
  enterSave :: bool
  saveImage :: bool
  savePath :: string
  vars :: "string list"
  sendLoc :: nat
  inDebugger :: bool
  exiting :: bool
  cpu_events :: "32 word"
  cpu_next :: int
  control_off :: bool
  lcd_gui_callback :: "nat option"
  lcd_gui_callback_data :: "nat option"
  isRunning :: bool
  trace :: "action list"

text \<open>
  Undefined behaviour of C++ is a result of its own, and so is a call that has not
  returned: \<open>Blocked st\<close> is a thread waiting in a semaphore, in the condition variable
  or in a sleep loop, with \<open>st\<close> the state it has reached.
\<close>

datatype ub = Out_of_bounds | Memcpy_overlap | Division_by_zero

datatype 'a outcome = Returns 'a | Blocked 'a | Undefined ub

definition emit :: "action \<Rightarrow> EmuThread \<Rightarrow> EmuThread" where
  "emit a st = st\<lparr>trace := trace st @ [a]\<rparr>"

subsection \<open>Memory and formatting\<close>

text \<open>
  \<open>poke mem off bs\<close> stores the bytes \<open>bs\<close> at offset \<open>off\<close> of the array \<open>mem\<close>, and
  \<open>peek mem off n\<close> reads \<open>n\<close> bytes there. An access outside the array is undefined
  behaviour; a negative length, converted to \<^verbatim>\<open>size_t\<close>, is larger than any array.
\<close>

definition blit :: "byte list \<Rightarrow> int \<Rightarrow> byte list \<Rightarrow> byte list" where
  "blit mem off bs = take (nat off) mem @ bs @ drop (nat off + length bs) mem"

definition poke :: "byte list \<Rightarrow> int \<Rightarrow> byte list \<Rightarrow> ub + byte list" where
  "poke mem off bs =
     (if 0 \<le> off \<and> off + int (length bs) \<le> int (length mem)
      then Inr (blit mem off bs)
      else Inl Out_of_bounds)"

definition peek :: "byte list \<Rightarrow> int \<Rightarrow> int \<Rightarrow> ub + byte list" where
  "peek mem off n =
     (if 0 \<le> off \<and> 0 \<le> n \<and> off + n \<le> int (length mem)
      then Inr (take (nat n) (drop (nat off) mem))
      else Inl Out_of_bounds)"

text \<open>
  \<^verbatim>\<open>vsnprintf(mem + off, n, format, args)\<close>. The format and its arguments are
  represented by the text they format to, \<open>None\<close> when the formatting fails (a negative
  return value). With \<open>n = 0\<close> nothing is stored; otherwise at most \<open>n - 1\<close> bytes of the
  text and a terminating zero are, and a negative \<open>n\<close>, converted to \<^verbatim>\<open>size_t\<close>, is no
  limit. The result is the length of the whole text.
\<close>

definition vsnprintf :: "byte list \<Rightarrow> int \<Rightarrow> int \<Rightarrow> byte list option \<Rightarrow> ub + (byte list \<times> int)" where
  "vsnprintf mem off n fmt =
     (case fmt of
        None \<Rightarrow> Inr (mem, - 1)
      | Some text \<Rightarrow>
          if n = 0 then Inr (mem, int (length text))
          else (case poke mem off ((if n < 0 then text else take (nat (n - 1)) text) @ [0]) of
                  Inl e \<Rightarrow> Inl e
                | Inr mem' \<Rightarrow> Inr (mem', int (length text))))"

subsection \<open>The console channel\<close>

text \<open>
  \<^verbatim>\<open>QSemaphore::acquire(n)\<close> on \<^verbatim>\<open>consoleWriteSemaphore\<close> returns once \<open>n\<close> permits are
  there. Only the consumer, which is not part of this file, releases write permits, so
  a call that finds too few does not return here.
\<close>

definition acquire :: "int \<Rightarrow> EmuThread \<Rightarrow> EmuThread option" where
  "acquire n st =
     (if n \<le> consoleWriteSemaphore st
      then Some (st\<lparr>consoleWriteSemaphore := consoleWriteSemaphore st - n\<rparr>)
      else None)"

definition release :: "int \<Rightarrow> EmuThread \<Rightarrow> EmuThread" where
  "release n st = st\<lparr>consoleReadSemaphore := consoleReadSemaphore st + n\<rparr>"

text \<open>
  The scratch area of the second formatting: the ring's own array, or
  \<^verbatim>\<open>new char[size + 1]\<close>. Plain \<^verbatim>\<open>new\<close> does not return a null pointer, so \<^verbatim>\<open>buffer\<close> is
  never null.
\<close>

datatype scratch = Ring | Heap "byte list"

definition scratch_mem :: "scratch \<Rightarrow> EmuThread \<Rightarrow> byte list" where
  "scratch_mem buffer st = (case buffer of Ring \<Rightarrow> consoleBuffer st | Heap h \<Rightarrow> h)"

text \<open>
  \<^verbatim>\<open>memcpy(consoleBuffer + consoleWritePosition, buffer + bufferPosition, n)\<close>: undefined
  when source and destination overlap, which they can only when the scratch area is the
  ring. \<^verbatim>\<open>memmove\<close> is the same without that condition.
\<close>

definition memmove :: "scratch \<Rightarrow> int \<Rightarrow> int \<Rightarrow> EmuThread \<Rightarrow> ub + EmuThread" where
  "memmove buffer bufferPosition n st =
     (case peek (scratch_mem buffer st) bufferPosition n of
        Inl e \<Rightarrow> Inl e
      | Inr bs \<Rightarrow>
          (case poke (consoleBuffer st) (consoleWritePosition st) bs of
             Inl e \<Rightarrow> Inl e
           | Inr mem \<Rightarrow> Inr (st\<lparr>consoleBuffer := mem\<rparr>)))"

definition memcpy :: "scratch \<Rightarrow> int \<Rightarrow> int \<Rightarrow> EmuThread \<Rightarrow> ub + EmuThread" where
  "memcpy buffer bufferPosition n st =
     (if buffer = Ring \<and> 0 < n \<and> bufferPosition < consoleWritePosition st + n
         \<and> consoleWritePosition st < bufferPosition + n
      then Inl Memcpy_overlap
      else memmove buffer bufferPosition n st)"

text \<open>
  The loop \<^verbatim>\<open>while (size >= remaining)\<close>. Its result is the values of \<^verbatim>\<open>bufferPosition\<close>
  and \<^verbatim>\<open>size\<close> (here \<open>sz\<close>) and the state after the loop. From the second round on \<^verbatim>\<open>remaining\<close> is
  \<^verbatim>\<open>CONSOLE_BUFFER_SIZE\<close>, the bound of an array and so positive; with a bound that is
  not, the C++ loop would copy nothing for ever, and the model stops.
\<close>

function copy_chunks ::
  "header \<Rightarrow> int \<Rightarrow> scratch \<Rightarrow> int \<Rightarrow> int \<Rightarrow> int \<Rightarrow> EmuThread \<Rightarrow> (int \<times> int \<times> EmuThread) outcome" where
  "copy_chunks K dest buffer bufferPosition sz remaining st =
     (if sz \<ge> remaining then
        (case acquire remaining st of
           None \<Rightarrow> Blocked (bufferPosition, sz, st)
         | Some st1 \<Rightarrow>
             (case memcpy buffer bufferPosition remaining st1 of
                Inl e \<Rightarrow> Undefined e
              | Inr st2 \<Rightarrow>
                  if CONSOLE_BUFFER_SIZE K \<le> 0 then Undefined Out_of_bounds
                  else copy_chunks K dest buffer (bufferPosition + remaining) (sz - remaining)
                         (CONSOLE_BUFFER_SIZE K)
                         (emit (ConsoleStr dest) (release remaining (st2\<lparr>consoleWritePosition := 0\<rparr>)))))
      else Returns (bufferPosition, sz, st))"
  by pat_completeness auto
termination
proof (relation "measures [\<lambda>(K, dest, buffer, bufferPosition, sz, remaining, st). if remaining \<le> 0 then 1 else 0,
                           \<lambda>(K, dest, buffer, bufferPosition, sz, remaining, st). nat sz]")
  show "wf (measures [\<lambda>(K, dest, buffer, bufferPosition, sz, remaining, st). if remaining \<le> 0 then 1 else 0,
                      \<lambda>(K, dest, buffer, bufferPosition, sz, remaining, st). nat sz])"
    by simp
next
  fix K :: header and dest :: int and buffer :: scratch and bufferPosition sz remaining :: int
    and st st1 st2 :: EmuThread
  assume "remaining \<le> sz" and "\<not> CONSOLE_BUFFER_SIZE K \<le> 0"
  then show "((K, dest, buffer, bufferPosition + remaining, sz - remaining, CONSOLE_BUFFER_SIZE K,
               emit (ConsoleStr dest) (release remaining (st2\<lparr>consoleWritePosition := 0\<rparr>))),
              (K, dest, buffer, bufferPosition, sz, remaining, st))
             \<in> measures [\<lambda>(K, dest, buffer, bufferPosition, sz, remaining, st). if remaining \<le> 0 then 1 else 0,
                          \<lambda>(K, dest, buffer, bufferPosition, sz, remaining, st). nat sz]"
    by auto
qed

text \<open>
  \<^verbatim>\<open>EmuThread::writeConsoleBuffer\<close>. The tail of the oversized path, after the loop, is
  \<open>copy_rest\<close>, and \<open>format_scratch\<close> is the second call of \<^verbatim>\<open>vsnprintf\<close>, into the
  scratch area. Freeing the heap block at the end changes nothing that is modelled.
\<close>

definition copy_rest :: "int \<Rightarrow> scratch \<Rightarrow> int \<Rightarrow> int \<Rightarrow> EmuThread \<Rightarrow> EmuThread outcome" where
  "copy_rest dest buffer bufferPosition sz st =
     (if sz \<noteq> 0 then
        (case acquire sz st of
           None \<Rightarrow> Blocked st
         | Some st1 \<Rightarrow>
             (case memmove buffer bufferPosition sz st1 of
                Inl e \<Rightarrow> Undefined e
              | Inr st2 \<Rightarrow>
                  Returns (emit (ConsoleStr dest)
                    (release sz (st2\<lparr>consoleWritePosition := consoleWritePosition st2 + sz\<rparr>)))))
      else Returns st)"

definition format_scratch :: "scratch \<Rightarrow> int \<Rightarrow> byte list option \<Rightarrow> EmuThread \<Rightarrow> ub + (scratch \<times> int \<times> EmuThread)" where
  "format_scratch buffer n fmt st =
     (case vsnprintf (scratch_mem buffer st) 0 n fmt of
        Inl e \<Rightarrow> Inl e
      | Inr (mem, r) \<Rightarrow>
          (case buffer of
             Ring \<Rightarrow> Inr (Ring, r, st\<lparr>consoleBuffer := mem\<rparr>)
           | Heap h \<Rightarrow> Inr (Heap mem, r, st)))"

definition writeConsoleBuffer :: "header \<Rightarrow> int \<Rightarrow> byte list option \<Rightarrow> EmuThread \<Rightarrow> EmuThread outcome" where
  "writeConsoleBuffer K dest fmt st =
     (let available = consoleWriteSemaphore st;
          remaining = CONSOLE_BUFFER_SIZE K - consoleWritePosition st;
          space = (if available < remaining then available else remaining)
      in case vsnprintf (consoleBuffer st) (consoleWritePosition st) space fmt of
           Inl e \<Rightarrow> Undefined e
         | Inr (mem, sz) \<Rightarrow>
             let st1 = st\<lparr>consoleBuffer := mem\<rparr> in
             if sz < space then
               (if sz > 0 then
                  (case acquire sz st1 of
                     None \<Rightarrow> Blocked st1
                   | Some st2 \<Rightarrow>
                       Returns (emit (ConsoleStr dest)
                         (release sz (st2\<lparr>consoleWritePosition := consoleWritePosition st2 + sz\<rparr>))))
                else Returns st1)
             else
               (let buffer = (if sz < available - remaining then Ring
                              else Heap (replicate (nat (sz + 1)) 0))
                in case format_scratch buffer (sz + 1) fmt st1 of
                     Inl e \<Rightarrow> Undefined e
                   | Inr (buffer', r, st2) \<Rightarrow>
                       if r \<ge> 0 then
                         (case copy_chunks K dest buffer' 0 sz remaining st2 of
                            Returns (bufferPosition, sz', st3) \<Rightarrow> copy_rest dest buffer' bufferPosition sz' st3
                          | Blocked (bufferPosition, sz', st3) \<Rightarrow> Blocked st3
                          | Undefined e \<Rightarrow> Undefined e)
                       else Returns st2))"

text \<open>A sequence of calls, each with its destination tag and its formatted text.\<close>

fun writes :: "header \<Rightarrow> (int \<times> byte list option) list \<Rightarrow> EmuThread \<Rightarrow> EmuThread outcome" where
  "writes K [] st = Returns st"
| "writes K ((dest, fmt) # calls) st =
     (case writeConsoleBuffer K dest fmt st of
        Returns st' \<Rightarrow> writes K calls st'
      | Blocked st' \<Rightarrow> Blocked st'
      | Undefined e \<Rightarrow> Undefined e)"

definition formatted :: "byte list option \<Rightarrow> byte list" where
  "formatted fmt = (case fmt of None \<Rightarrow> [] | Some text \<Rightarrow> text)"

text \<open>
  The state of the channel between two operations: the array has
  \<^verbatim>\<open>CONSOLE_BUFFER_SIZE\<close> bytes, the write cursor is inside it, and the two semaphores
  share the capacity. The constructor establishes it: \<^verbatim>\<open>consoleWriteSemaphore\<close> starts at
  \<^verbatim>\<open>CONSOLE_BUFFER_SIZE\<close>, and \<^verbatim>\<open>consoleReadSemaphore\<close> and the cursor at 0.
\<close>

definition channel_inv :: "header \<Rightarrow> EmuThread \<Rightarrow> bool" where
  "channel_inv K st \<longleftrightarrow>
     int (length (consoleBuffer st)) = CONSOLE_BUFFER_SIZE K \<and>
     0 \<le> consoleWritePosition st \<and> consoleWritePosition st < CONSOLE_BUFFER_SIZE K \<and>
     0 \<le> consoleWriteSemaphore st \<and> 0 \<le> consoleReadSemaphore st \<and>
     consoleWriteSemaphore st + consoleReadSemaphore st = CONSOLE_BUFFER_SIZE K"

text \<open>
  Modelled from the spec: the consumer, which is not part of this file, keeps a read
  cursor of its own and is never given more than \<^verbatim>\<open>consoleReadSemaphore\<close> reports. Its
  cursor stands that many bytes behind the write cursor, modulo the capacity, and the
  bytes it can read are those from there up to the write cursor.
\<close>

definition read_cursor :: "header \<Rightarrow> EmuThread \<Rightarrow> int" where
  "read_cursor K st = (consoleWritePosition st - consoleReadSemaphore st) mod CONSOLE_BUFFER_SIZE K"

definition readable_bytes :: "header \<Rightarrow> EmuThread \<Rightarrow> byte list" where
  "readable_bytes K st =
     map (\<lambda>i. consoleBuffer st ! nat ((read_cursor K st + int i) mod CONSOLE_BUFFER_SIZE K))
       [0 ..< nat (consoleReadSemaphore st)]"

text \<open>
  What one call adds to the stream, used in the proofs below: the invariant holds again,
  the semaphores and the cursor have moved by the length of the text, no readable byte
  has changed, and the readable bytes are the old ones followed by the text.
\<close>

definition commits :: "header \<Rightarrow> byte list \<Rightarrow> EmuThread \<Rightarrow> EmuThread \<Rightarrow> bool" where
  "commits K text st st' \<longleftrightarrow>
     channel_inv K st' \<and>
     consoleWriteSemaphore st' = consoleWriteSemaphore st - int (length text) \<and>
     consoleReadSemaphore st' = consoleReadSemaphore st + int (length text) \<and>
     consoleWritePosition st' = (consoleWritePosition st + int (length text)) mod CONSOLE_BUFFER_SIZE K \<and>
     (\<forall>i. 0 \<le> i \<and> i < CONSOLE_BUFFER_SIZE K \<and>
          ((consoleWritePosition st - consoleReadSemaphore st \<le> i \<and> i < consoleWritePosition st)
            \<or> consoleWritePosition st + consoleWriteSemaphore st \<le> i) \<longrightarrow>
          consoleBuffer st' ! nat i = consoleBuffer st ! nat i) \<and>
     readable_bytes K st' = readable_bytes K st @ text"

subsection \<open>The constructor and the setters\<close>

text \<open>
  Modelled from the spec: the initial values of the members that the constructor does
  not set. They come from the class declaration in \<^verbatim>\<open>emuthread.h\<close>, which is not among the
  sources at hand; the spec starts the read permits at 0 and the cursor inside the
  array, and here every request flag starts cleared. The rest is
  \<^verbatim>\<open>EmuThread::EmuThread\<close>, with the clock reading it takes: it gives
  \<^verbatim>\<open>consoleWriteSemaphore\<close> all \<^verbatim>\<open>CONSOLE_BUFFER_SIZE\<close> permits and sets the two speeds and
  \<^verbatim>\<open>lastTime\<close>.
\<close>

definition EmuThread_new :: "header \<Rightarrow> int \<Rightarrow> EmuThread" where
  "EmuThread_new K now =
     \<lparr>consoleBuffer = replicate (nat (CONSOLE_BUFFER_SIZE K)) 0,
      consoleWritePosition = 0,
      consoleWriteSemaphore = CONSOLE_BUFFER_SIZE K,
      consoleReadSemaphore = 0,
      speed = 100, actualSpeed = 100, throttleOn = True, lastTime = now,
      doReset = False, enterDebugger = False, enterSendState = False,
      enterReceiveState = False, enterSave = False, saveImage = False, savePath = [],
      vars = [], sendLoc = 0, inDebugger = False, exiting = False,
      cpu_events = 0, cpu_next = 0, control_off = False,
      lcd_gui_callback = None, lcd_gui_callback_data = None,
      isRunning = False, trace = []\<rparr>"

definition reset :: "EmuThread \<Rightarrow> EmuThread" where
  "reset st = st\<lparr>doReset := True\<rparr>"

definition setEmuSpeed :: "int \<Rightarrow> EmuThread \<Rightarrow> EmuThread" where
  "setEmuSpeed v st = st\<lparr>speed := v\<rparr>"

definition setThrottleMode :: "bool \<Rightarrow> EmuThread \<Rightarrow> EmuThread" where
  "setThrottleMode throttled st = st\<lparr>throttleOn := throttled\<rparr>"

text \<open>
  \<^verbatim>\<open>EmuThread::debug\<close>. The two calls into the debugger are recorded in the trace; what
  they do inside the debugger is not part of this file.
\<close>

definition debug :: "bool \<Rightarrow> EmuThread \<Rightarrow> EmuThread" where
  "debug state st =
     (let st1 = st\<lparr>enterDebugger := state\<rparr>
      in if inDebugger st1 \<and> \<not> state
         then emit Close_debugger (emit Debug_clear_temp_break st1)
         else st1)"

definition send :: "string list \<Rightarrow> nat \<Rightarrow> EmuThread \<Rightarrow> EmuThread" where
  "send list location st = st\<lparr>enterSendState := True, vars := list, sendLoc := location\<rparr>"

definition receive :: "EmuThread \<Rightarrow> EmuThread" where
  "receive st = st\<lparr>enterReceiveState := True\<rparr>"

definition save :: "bool \<Rightarrow> string \<Rightarrow> EmuThread \<Rightarrow> EmuThread" where
  "save img path st = st\<lparr>savePath := path, saveImage := img, enterSave := True\<rparr>"

subsection \<open>The checkpoint\<close>

text \<open>
  \<^verbatim>\<open>EmuThread::sendFiles\<close>. The transfer itself, \<^verbatim>\<open>sendVariableLink\<close>, belongs to the core:
  it is a parameter that gives the status of the transfer of a file to a location.
\<close>

function sendFiles_loop :: "(string \<Rightarrow> nat \<Rightarrow> int) \<Rightarrow> int \<Rightarrow> int \<Rightarrow> EmuThread \<Rightarrow> EmuThread" where
  "sendFiles_loop sendVariableLink fileNum i st =
     (if i < fileNum
      then sendFiles_loop sendVariableLink fileNum (i + 1)
             (emit (SentFile (vars st ! nat i) (sendVariableLink (vars st ! nat i) (sendLoc st))) st)
      else st)"
  by pat_completeness auto
termination
  by (relation "measure (\<lambda>(sendVariableLink, fileNum, i, st). nat (fileNum - i))") auto

definition sendFiles :: "header \<Rightarrow> (string \<Rightarrow> nat \<Rightarrow> int) \<Rightarrow> EmuThread \<Rightarrow> EmuThread" where
  "sendFiles K sendVariableLink st =
     emit (SentFile [] (LINK_GOOD K))
       (sendFiles_loop sendVariableLink (int (length (vars st))) 0 st)"

text \<open>
  \<^verbatim>\<open>EmuThread::doStuff\<close>. Its inputs from outside the object are the two readings of the
  clock, the result of \<^verbatim>\<open>emu_save\<close>, the transfer function, and whether \<^verbatim>\<open>cv.wait\<close>
  returns: \<open>wait_returns\<close> says that the thread is woken while it waits, by a
  \<^verbatim>\<open>notify_all\<close> or, as C++ permits, without one. Otherwise the call stays in \<^verbatim>\<open>cv.wait\<close>.
\<close>

record collaborators =
  emu_save :: "bool \<Rightarrow> string \<Rightarrow> bool"
  sendVariableLink :: "string \<Rightarrow> nat \<Rightarrow> int"
  wait_returns :: bool

definition doStuff :: "header \<Rightarrow> collaborators \<Rightarrow> int \<Rightarrow> int \<Rightarrow> EmuThread \<Rightarrow> EmuThread outcome" where
  "doStuff K W cur_time now st =
     (let st1 = st\<lparr>lastTime := lastTime st + (now - cur_time)\<rparr>;
          st2 = (if doReset st1
                 then st1\<lparr>cpu_events := cpu_events st1 OR EVENT_RESET K, doReset := False\<rparr>
                 else st1);
          st3 = (if enterSave st2
                 then (emit (Saved (emu_save W (saveImage st2) (savePath st2))) st2)\<lparr>enterSave := False\<rparr>
                 else st2);
          st4 = (if enterSendState st3
                 then (sendFiles K (sendVariableLink W) st3)\<lparr>enterSendState := False\<rparr>
                 else st3)
      in if enterReceiveState st4 \<and> \<not> wait_returns W then Blocked (emit ReceiveReady st4)
         else
           (let st5 = (if enterReceiveState st4
                       then (emit ReceiveReady st4)\<lparr>enterReceiveState := False\<rparr>
                       else st4);
                st6 = (if enterDebugger st5
                       then (emit (Open_debugger (DBG_USER K) 0) st5)\<lparr>enterDebugger := False\<rparr>
                       else st5)
            in Returns st6))"

text \<open>The \<^verbatim>\<open>sentFile\<close> events of a trace, and the state a call has reached, returned
  or not.\<close>

definition is_SentFile :: "action \<Rightarrow> bool" where
  "is_SentFile a = (case a of SentFile f status \<Rightarrow> True | _ \<Rightarrow> False)"

definition reached :: "EmuThread outcome \<Rightarrow> EmuThread option" where
  "reached r = (case r of Returns st \<Rightarrow> Some st | Blocked st \<Rightarrow> Some st | Undefined e \<Rightarrow> None)"

subsection \<open>The throttle\<close>

text \<open>
  \<^verbatim>\<open>EmuThread::setActualSpeed\<close> and \<^verbatim>\<open>EmuThread::throttleTimerWait\<close>. Time points and
  durations of \<^verbatim>\<open>steady_clock\<close> are counts of nanoseconds. C++ division truncates, and
  a zero divisor is undefined behaviour.
\<close>

definition setActualSpeed :: "int \<Rightarrow> EmuThread \<Rightarrow> EmuThread" where
  "setActualSpeed v st =
     (if \<not> control_off st
      then (if actualSpeed st \<noteq> v then emit (ActualSpeedChanged v) (st\<lparr>actualSpeed := v\<rparr>) else st)
      else st)"

definition divide :: "int \<Rightarrow> int \<Rightarrow> int option" where
  "divide a b = (if b = 0 then None else Some (a sdiv b))"

text \<open>
  \<^verbatim>\<open>duration_cast\<close> from ticks of 1/60000000 s to nanoseconds multiplies by 50 and
  divides by 3; the interval is that of \<^verbatim>\<open>1000000 * 100 / speed\<close> such ticks.
\<close>

definition interval_of :: "int \<Rightarrow> int option" where
  "interval_of v = (case divide (1000000 * 100) v of None \<Rightarrow> None | Some ticks \<Rightarrow> Some (ticks * 50 sdiv 3))"

text \<open>
  \<^verbatim>\<open>unit / (cur_time - lastTime)\<close>: \<open>unit\<close> is 100/60 s. Both durations are converted to
  their common type, ticks of 1/3000000000 s, in which \<open>unit\<close> is 5000000000 ticks and a
  nanosecond is 3.
\<close>

definition unit_over :: "int \<Rightarrow> int option" where
  "unit_over elapsed = divide 5000000000 (3 * elapsed)"

text \<open>
  The loop \<^verbatim>\<open>while (!speed) usleep(10000)\<close>. The controller thread may call
  \<^verbatim>\<open>setEmuSpeed\<close> during a sleep: the list holds, for each sleep in turn, the speed it
  sets then, if any (elsewhere in the routine the speed does not change between two
  reads). At the end of the list the controller sets no speed any more, and
  a loop that still reads 0 goes on sleeping.
\<close>

fun speed_zero_loop :: "int option list \<Rightarrow> EmuThread \<Rightarrow> EmuThread outcome" where
  "speed_zero_loop [] st = (if speed st = 0 then Blocked st else Returns st)"
| "speed_zero_loop (c # ctl) st =
     (if speed st = 0
      then speed_zero_loop ctl
             (case c of None \<Rightarrow> emit (Usleep 10000) st
                      | Some v \<Rightarrow> setEmuSpeed v (emit (Usleep 10000) st))
      else Returns st)"

definition throttleTimerWait :: "int option list \<Rightarrow> int \<Rightarrow> EmuThread \<Rightarrow> EmuThread outcome" where
  "throttleTimerWait ctl now st =
     (if speed st = 0 then speed_zero_loop ctl (setActualSpeed 0 st)
      else
        (case interval_of (speed st) of
           None \<Rightarrow> Undefined Division_by_zero
         | Some interval \<Rightarrow>
             let cur_time = now; next_time = lastTime st + interval
             in if throttleOn st \<and> cur_time < next_time
                then Returns (emit (Sleep_until next_time)
                               ((setActualSpeed (speed st) st)\<lparr>lastTime := next_time\<rparr>))
                else if lastTime st \<noteq> cur_time
                then (case unit_over (cur_time - lastTime st) of
                        None \<Rightarrow> Undefined Division_by_zero
                      | Some v \<Rightarrow> Returns (emit Yield ((setActualSpeed v st)\<lparr>lastTime := cur_time\<rparr>)))
                else Returns (emit Yield st)))"

text \<open>The number of sleeps of the loop: one for each entry that leaves the speed at 0, and
  one more for the entry that changes it.\<close>

definition keeps_zero :: "int option \<Rightarrow> bool" where
  "keeps_zero c = (case c of None \<Rightarrow> True | Some v \<Rightarrow> v = 0)"

definition slices :: "int option list \<Rightarrow> nat" where
  "slices ctl = min (length ctl) (Suc (length (takeWhile keeps_zero ctl)))"

subsection \<open>Stopping the thread\<close>

text \<open>
  \<^verbatim>\<open>EmuThread::stop\<close>. \<^verbatim>\<open>QThread::wait(ms)\<close> returns whether the thread has finished
  within the time. Whether it does is not decided in this file: \<open>exits\<close> says that the
  emulation loop sees the exit condition and \<^verbatim>\<open>EmuThread::run\<close> returns, emitting
  \<^verbatim>\<open>stopped\<close>, before the first wait is over, and \<open>dies\<close> that the terminated thread is
  gone before the second is. A terminated thread does not reach the end of \<^verbatim>\<open>run\<close>.
\<close>

definition run_returns :: "EmuThread \<Rightarrow> EmuThread" where
  "run_returns st = emit Stopped st"

definition thread_wait :: "nat \<Rightarrow> bool \<Rightarrow> bool \<Rightarrow> EmuThread \<Rightarrow> bool \<times> EmuThread" where
  "thread_wait ms finished by_itself st =
     (let st1 = emit (Wait_ms ms) st;
          st2 = (if finished \<and> by_itself then run_returns st1 else st1)
      in (finished, st2\<lparr>isRunning := isRunning st \<and> \<not> finished\<rparr>))"

definition stop :: "bool \<Rightarrow> bool \<Rightarrow> EmuThread \<Rightarrow> bool \<times> EmuThread" where
  "stop exits dies st =
     (if \<not> isRunning st then (True, st)
      else
        (let st1 = st\<lparr>lcd_gui_callback := None, lcd_gui_callback_data := None,
                      exiting := True, cpu_next := 0\<rparr>;
             (done1, st2) = thread_wait 200 exits True st1
         in if \<not> done1
            then (let (done2, st3) = thread_wait 200 dies False (emit Terminate st2)
                  in if \<not> done2 then (False, st3) else (True, st3))
            else (True, st2)))"

subsection \<open>The gate of the receive flow\<close>

text \<open>
  \<^verbatim>\<open>EmuThread::unlock\<close> runs on the controller thread while \<^verbatim>\<open>doStuff\<close> runs on the
  emulator thread, so the gate is modelled with both threads, each proceeding statement
  by statement under any schedule. A \<^verbatim>\<open>std::mutex\<close> is held by at most one thread, and
  locking a held mutex waits. \<^verbatim>\<open>cv.wait(lock)\<close> releases the mutex and suspends the
  thread in one step; \<^verbatim>\<open>notify_all\<close> wakes the threads suspended at that time and has
  no effect on later waits; a woken thread locks the mutex again before \<^verbatim>\<open>wait\<close>
  returns.

  The code calls \<^verbatim>\<open>cv.wait(lock)\<close> without a predicate and outside any loop, and the C++
  standard lets a suspended thread wake up without a notification. Such a wake-up is a
  step of its own in a schedule, \<open>Spurious\<close>, possible whenever the emulator thread is
  suspended. Nothing obliges it to happen: the two threads themselves cannot bring it
  about, so a suspended emulator thread can take no step of its own.

  The emulator thread is at \<open>E_if\<close> before \<^verbatim>\<open>if (enterReceiveState)\<close>, at \<open>E_lock\<close> before
  the construction of the \<^verbatim>\<open>unique_lock\<close>, at \<open>E_emit\<close> before \<^verbatim>\<open>emit receiveReady()\<close>, at
  \<open>E_wait\<close> before \<^verbatim>\<open>cv.wait(lock)\<close>, at \<open>E_suspended\<close> inside it, at \<open>E_woken\<close> when it has
  been woken, with or without a notification, and has yet to lock the mutex, at
  \<open>E_clear\<close> before \<^verbatim>\<open>enterReceiveState = false\<close>, at \<open>E_unlock\<close> before the lock goes out of
  scope, and at \<open>E_end\<close> after the block. The controller thread is at \<open>U_lock\<close>,
  \<open>U_notify\<close> and \<open>U_unlock\<close> before the three statements of \<^verbatim>\<open>unlock()\<close> and at \<open>U_end\<close>
  after them. \<open>pending\<close> is \<^verbatim>\<open>enterReceiveState\<close>; the two counters count the
  \<^verbatim>\<open>receiveReady\<close> signals emitted and the returns of \<^verbatim>\<open>cv.wait\<close>.
\<close>

datatype actor = Emu | Ctl | Spurious

datatype emu_pc = E_if | E_lock | E_emit | E_wait | E_suspended | E_woken | E_clear | E_unlock | E_end

datatype ctl_pc = U_lock | U_notify | U_unlock | U_end

record gate =
  emu_at :: emu_pc
  ctl_at :: ctl_pc
  mutex :: "actor option"
  pending :: bool
  ready_emitted :: nat
  wait_returned :: nat

definition emu_step :: "gate \<Rightarrow> gate option" where
  "emu_step g =
     (case emu_at g of
        E_if \<Rightarrow> Some (g\<lparr>emu_at := (if pending g then E_lock else E_end)\<rparr>)
      | E_lock \<Rightarrow> (if mutex g = None then Some (g\<lparr>mutex := Some Emu, emu_at := E_emit\<rparr>) else None)
      | E_emit \<Rightarrow> Some (g\<lparr>ready_emitted := Suc (ready_emitted g), emu_at := E_wait\<rparr>)
      | E_wait \<Rightarrow> Some (g\<lparr>mutex := None, emu_at := E_suspended\<rparr>)
      | E_suspended \<Rightarrow> None
      | E_woken \<Rightarrow> (if mutex g = None
                    then Some (g\<lparr>mutex := Some Emu, wait_returned := Suc (wait_returned g), emu_at := E_clear\<rparr>)
                    else None)
      | E_clear \<Rightarrow> Some (g\<lparr>pending := False, emu_at := E_unlock\<rparr>)
      | E_unlock \<Rightarrow> Some (g\<lparr>mutex := None, emu_at := E_end\<rparr>)
      | E_end \<Rightarrow> None)"

definition ctl_step :: "gate \<Rightarrow> gate option" where
  "ctl_step g =
     (case ctl_at g of
        U_lock \<Rightarrow> (if mutex g = None then Some (g\<lparr>mutex := Some Ctl, ctl_at := U_notify\<rparr>) else None)
      | U_notify \<Rightarrow> Some (g\<lparr>emu_at := (if emu_at g = E_suspended then E_woken else emu_at g),
                             ctl_at := U_unlock\<rparr>)
      | U_unlock \<Rightarrow> Some (g\<lparr>mutex := None, ctl_at := U_end\<rparr>)
      | U_end \<Rightarrow> None)"

text \<open>The wake-up of the suspended emulator thread without a notification.\<close>

definition spurious_step :: "gate \<Rightarrow> gate option" where
  "spurious_step g = (if emu_at g = E_suspended then Some (g\<lparr>emu_at := E_woken\<rparr>) else None)"

definition step :: "actor \<Rightarrow> gate \<Rightarrow> gate option" where
  "step t g = (case t of Emu \<Rightarrow> emu_step g | Ctl \<Rightarrow> ctl_step g | Spurious \<Rightarrow> spurious_step g)"

text \<open>A schedule names what takes each step: one of the threads, or a wake-up without
  notification. It is possible when each step it names can be taken.\<close>

fun schedule_run :: "actor list \<Rightarrow> gate \<Rightarrow> gate option" where
  "schedule_run [] g = Some g"
| "schedule_run (t # sched) g = (case step t g of None \<Rightarrow> None | Some g' \<Rightarrow> schedule_run sched g')"

text \<open>
  The gate after \<^verbatim>\<open>receive()\<close>, with \<^verbatim>\<open>doStuff\<close> at its test of the flag and \<^verbatim>\<open>unlock\<close>
  about to be called; and the gate once \<^verbatim>\<open>doStuff\<close> has locked the mutex.
\<close>

definition gate_requested :: gate where
  "gate_requested =
     \<lparr>emu_at = E_if, ctl_at = U_lock, mutex = None, pending = True,
      ready_emitted = 0, wait_returned = 0\<rparr>"

definition gate_entered :: gate where
  "gate_entered = gate_requested\<lparr>emu_at := E_emit, mutex := Some Emu\<rparr>"

text \<open>
  For the proofs about the gate: the number of steps behind the two threads; the
  states the gate can be in once \<^verbatim>\<open>doStuff\<close> has locked the mutex while \<^verbatim>\<open>unlock\<close> has not
  started, \<open>n\<close> being the number of returns of \<^verbatim>\<open>cv.wait\<close> before; and those among them
  that a schedule without a wake-up of its own reaches, in which the emulator thread
  is past its suspension only after \<^verbatim>\<open>notify_all\<close>.
\<close>

definition emu_rank :: "emu_pc \<Rightarrow> nat" where
  "emu_rank pc =
     (case pc of E_if \<Rightarrow> 0 | E_lock \<Rightarrow> 1 | E_emit \<Rightarrow> 2 | E_wait \<Rightarrow> 3 | E_suspended \<Rightarrow> 4
      | E_woken \<Rightarrow> 5 | E_clear \<Rightarrow> 6 | E_unlock \<Rightarrow> 7 | E_end \<Rightarrow> 8)"

definition ctl_rank :: "ctl_pc \<Rightarrow> nat" where
  "ctl_rank pc = (case pc of U_lock \<Rightarrow> 0 | U_notify \<Rightarrow> 1 | U_unlock \<Rightarrow> 2 | U_end \<Rightarrow> 3)"

definition progress :: "gate \<Rightarrow> nat" where
  "progress g = emu_rank (emu_at g) + ctl_rank (ctl_at g)"

definition ctl_mutex :: "gate \<Rightarrow> bool" where
  "ctl_mutex g \<longleftrightarrow>
     (case ctl_at g of
        U_lock \<Rightarrow> mutex g = None
      | U_notify \<Rightarrow> mutex g = Some Ctl
      | U_unlock \<Rightarrow> mutex g = Some Ctl
      | U_end \<Rightarrow> mutex g = None)"

definition emu_mutex :: "gate \<Rightarrow> bool" where
  "emu_mutex g \<longleftrightarrow> mutex g = Some Emu \<and> (ctl_at g = U_lock \<or> ctl_at g = U_end)"

definition in_gate :: "nat \<Rightarrow> gate \<Rightarrow> bool" where
  "in_gate n g \<longleftrightarrow>
     (case emu_at g of
        E_if \<Rightarrow> False
      | E_lock \<Rightarrow> False
      | E_emit \<Rightarrow> mutex g = Some Emu \<and> ctl_at g = U_lock \<and> pending g \<and> wait_returned g = n
      | E_wait \<Rightarrow> mutex g = Some Emu \<and> ctl_at g = U_lock \<and> pending g \<and> wait_returned g = n
      | E_suspended \<Rightarrow> (ctl_at g = U_lock \<and> mutex g = None \<or> ctl_at g = U_notify \<and> mutex g = Some Ctl)
                       \<and> pending g \<and> wait_returned g = n
      | E_woken \<Rightarrow> ctl_mutex g \<and> pending g \<and> wait_returned g = n
      | E_clear \<Rightarrow> emu_mutex g \<and> pending g \<and> wait_returned g = Suc n
      | E_unlock \<Rightarrow> emu_mutex g \<and> \<not> pending g \<and> wait_returned g = Suc n
      | E_end \<Rightarrow> ctl_mutex g \<and> \<not> pending g \<and> wait_returned g = Suc n)"

definition notified :: "gate \<Rightarrow> bool" where
  "notified g \<longleftrightarrow>
     (case emu_at g of
        E_woken \<Rightarrow> ctl_at g = U_unlock \<or> ctl_at g = U_end
      | E_clear \<Rightarrow> ctl_at g = U_end
      | E_unlock \<Rightarrow> ctl_at g = U_end
      | E_end \<Rightarrow> ctl_at g = U_end
      | _ \<Rightarrow> True)"

subsection \<open>Sample data\<close>

text \<open>
  States on which the theorems below are run: a header with a console buffer of eight
  bytes, and a thread whose channel holds two unread bytes, 9 and 9, just before the
  write cursor at 6.
\<close>

definition K8 :: header where
  "K8 = \<lparr>CONSOLE_BUFFER_SIZE = 8, EVENT_RESET = 1, LINK_GOOD = 0, DBG_USER = 0\<rparr>"

definition two_unread :: EmuThread where
  "two_unread = (EmuThread_new K8 0)
     \<lparr>consoleBuffer := [0, 0, 0, 0, 9, 9, 0, 0], consoleWritePosition := 6,
      consoleWriteSemaphore := 6, consoleReadSemaphore := 2\<rparr>"

text \<open>
  Further states, each the constructed thread with a few members changed: a send
  request for two files; an enter request for the debugger; a thread inside the
  debugger; a running thread; a calculator that is switched off, at half speed and at
  speed 0; and a thread at half speed, at speed 0 and without throttling.
\<close>

definition batch_pending :: EmuThread where
  "batch_pending = send [''PRGM1'', ''LIST2''] 1 (EmuThread_new K8 0)"

definition second_fails :: collaborators where
  "second_fails =
     \<lparr>emu_save = (\<lambda>img path. True),
      sendVariableLink = (\<lambda>f location. if f = ''LIST2'' then 2 else 0),
      wait_returns = True\<rparr>"

definition enter_pending :: EmuThread where
  "enter_pending = debug True (EmuThread_new K8 0)"

definition inside_debugger :: EmuThread where
  "inside_debugger = (EmuThread_new K8 0)\<lparr>inDebugger := True\<rparr>"

definition running :: EmuThread where
  "running = (EmuThread_new K8 0)\<lparr>isRunning := True, cpu_next := 1000\<rparr>"

definition off_half_speed :: EmuThread where
  "off_half_speed = setEmuSpeed 50 ((EmuThread_new K8 0)\<lparr>control_off := True\<rparr>)"

definition off_speed_zero :: EmuThread where
  "off_speed_zero = setEmuSpeed 0 ((EmuThread_new K8 0)\<lparr>control_off := True\<rparr>)"

definition half_speed :: EmuThread where
  "half_speed = setEmuSpeed 50 (EmuThread_new K8 0)"

definition speed_zero :: EmuThread where
  "speed_zero = setEmuSpeed 0 (EmuThread_new K8 0)"

definition unthrottled :: EmuThread where
  "unthrottled = setThrottleMode False (EmuThread_new K8 0)"

section \<open>Lemmas about the console channel\<close>

subsection \<open>Memory\<close>

lemma length_blit:
  "0 \<le> off \<Longrightarrow> off + int (length bs) \<le> int (length mem) \<Longrightarrow> length (blit mem off bs) = length mem"
  by (auto simp: blit_def)

lemma nth_blit:
  assumes "0 \<le> off" and "off + int (length bs) \<le> int (length mem)" and "0 \<le> i" and "i < int (length mem)"
  shows "blit mem off bs ! nat i = (if off \<le> i \<and> i < off + int (length bs) then bs ! nat (i - off) else mem ! nat i)"
proof -
  let ?o = "nat off" and ?i = "nat i"
  have le: "?o \<le> length mem" and il: "?i < length mem" using assms by linarith+
  have len: "length (take ?o mem) = ?o" using le by simp
  have app: "blit mem off bs = take ?o mem @ (bs @ drop (?o + length bs) mem)"
    by (simp add: blit_def)
  consider "i < off" | "off \<le> i" "i < off + int (length bs)" | "off + int (length bs) \<le> i" by linarith
  then show ?thesis
  proof cases
    case 1
    then have "?i < ?o" using assms by linarith
    then have "blit mem off bs ! ?i = mem ! ?i"
      unfolding app by (simp only: nth_append len if_True nth_take)
    with 1 show ?thesis by simp
  next
    case 2
    then have a: "\<not> ?i < ?o" and b: "?i - ?o < length bs" and c: "nat (i - off) = ?i - ?o"
      using assms by linarith+
    have "blit mem off bs ! ?i = bs ! (?i - ?o)"
      unfolding app using a b by (simp only: nth_append len if_False if_True)
    with 2 c show ?thesis by simp
  next
    case 3
    then have a: "\<not> ?i < ?o" and b: "\<not> ?i - ?o < length bs" using assms by linarith+
    have d: "?o + length bs + (?i - ?o - length bs) = ?i" using 3 assms by linarith
    have "blit mem off bs ! ?i = drop (?o + length bs) mem ! (?i - ?o - length bs)"
      unfolding app using a b by (simp only: nth_append len if_False if_True)
    also have "\<dots> = mem ! (?o + length bs + (?i - ?o - length bs))"
      by (rule nth_drop) (use assms in linarith)
    finally show ?thesis using 3 d by simp
  qed
qed



lemma nth_blit_in:
  assumes "0 \<le> off" and "off + int (length bs) \<le> int (length mem)"
    and "off \<le> i" and "i < off + int (length bs)"
  shows "blit mem off bs ! nat i = bs ! nat (i - off)"
  using nth_blit [OF assms(1,2), of i] assms by simp

lemma nth_blit_out:
  assumes "0 \<le> off" and "off + int (length bs) \<le> int (length mem)"
    and "0 \<le> i" and "i < int (length mem)" and "i < off \<or> off + int (length bs) \<le> i"
  shows "blit mem off bs ! nat i = mem ! nat i"
  using nth_blit [OF assms(1,2,3,4)] assms(5) by auto

declare copy_chunks.simps [simp del]

lemma blit_Nil: "blit mem off [] = mem"
  by (simp add: blit_def)

lemma blit_whole: "length bs = length mem \<Longrightarrow> blit mem 0 bs = bs"
  by (simp add: blit_def)

lemma poke_ok:
  "0 \<le> off \<Longrightarrow> off + int (length bs) \<le> int (length mem) \<Longrightarrow> poke mem off bs = Inr (blit mem off bs)"
  by (simp add: poke_def)

lemma peek_ok:
  "0 \<le> off \<Longrightarrow> 0 \<le> n \<Longrightarrow> off + n \<le> int (length mem) \<Longrightarrow> peek mem off n = Inr (take (nat n) (drop (nat off) mem))"
  by (simp add: peek_def)

lemma vsnprintf_ok:
  assumes "0 < n" and "0 \<le> off" and "off + int (min (nat (n - 1)) (length text)) + 1 \<le> int (length mem)"
  shows "vsnprintf mem off n (Some text) = Inr (blit mem off (take (nat (n - 1)) text @ [0]), int (length text))"
proof -
  have "poke mem off (take (nat (n - 1)) text @ [0]) = Inr (blit mem off (take (nat (n - 1)) text @ [0]))"
    by (rule poke_ok) (use assms in simp_all)
  with assms(1) show ?thesis by (simp add: vsnprintf_def)
qed

lemma vsnprintf_zero: "vsnprintf mem off 0 (Some text) = Inr (mem, int (length text))"
  by (simp add: vsnprintf_def)

lemma acquire_ok:
  "n \<le> consoleWriteSemaphore st \<Longrightarrow> acquire n st = Some (st\<lparr>consoleWriteSemaphore := consoleWriteSemaphore st - n\<rparr>)"
  by (simp add: acquire_def)

lemma memmove_ok:
  assumes "0 \<le> bp" and "0 \<le> n" and "bp + n \<le> int (length (scratch_mem buffer st))"
    and "0 \<le> consoleWritePosition st" and "consoleWritePosition st + n \<le> int (length (consoleBuffer st))"
  shows "memmove buffer bp n st =
     Inr (st\<lparr>consoleBuffer := blit (consoleBuffer st) (consoleWritePosition st)
                 (take (nat n) (drop (nat bp) (scratch_mem buffer st)))\<rparr>)"
proof -
  let ?bs = "take (nat n) (drop (nat bp) (scratch_mem buffer st))"
  have len: "int (length ?bs) = n" using assms by simp
  have "poke (consoleBuffer st) (consoleWritePosition st) ?bs
          = Inr (blit (consoleBuffer st) (consoleWritePosition st) ?bs)"
    by (rule poke_ok) (use assms len in simp_all)
  then show ?thesis using assms by (simp add: memmove_def peek_ok)
qed

lemma copy_chunks_none:
  "sz < remaining \<Longrightarrow> copy_chunks K dest buffer bp sz remaining st = Returns (bp, sz, st)"
  by (simp add: copy_chunks.simps)

lemma copy_chunks_once:
  assumes "remaining \<le> sz" and "sz - remaining < CONSOLE_BUFFER_SIZE K" and "0 < CONSOLE_BUFFER_SIZE K"
    and "acquire remaining st = Some st1" and "memcpy buffer bp remaining st1 = Inr st2"
  shows "copy_chunks K dest buffer bp sz remaining st =
     Returns (bp + remaining, sz - remaining,
              emit (ConsoleStr dest) (release remaining (st2\<lparr>consoleWritePosition := 0\<rparr>)))"
  using assms by (subst copy_chunks.simps) (simp add: copy_chunks_none)


lemma mod_shift:
  fixes x c :: int
  assumes "0 < c" and "- c \<le> x" and "x < 2 * c"
  shows "x mod c = (if x < 0 then x + c else if c \<le> x then x - c else x)"
proof -
  consider "x < 0" | "0 \<le> x" "x < c" | "c \<le> x" by linarith
  then show ?thesis
  proof cases
    case 1
    have "x mod c = (x + c) mod c" by simp
    also have "\<dots> = x + c" by (rule mod_pos_pos_trivial) (use 1 assms in linarith)+
    finally show ?thesis using 1 by simp
  next
    case 2
    then show ?thesis by simp
  next
    case 3
    have "x mod c = (x - c) mod c" by simp
    also have "\<dots> = x - c" by (rule mod_pos_pos_trivial) (use 3 assms in linarith)+
    finally show ?thesis using 3 assms by simp
  qed
qed

lemma readable_bytes_append:
  assumes inv: "channel_inv K st"
    and n: "int (length text) = n" "n \<le> consoleWriteSemaphore st"
    and r': "consoleReadSemaphore st' = consoleReadSemaphore st + n"
    and p': "consoleWritePosition st' = (consoleWritePosition st + n) mod CONSOLE_BUFFER_SIZE K"
    and keep: "\<And>i. 0 \<le> i \<Longrightarrow> i < CONSOLE_BUFFER_SIZE K \<Longrightarrow>
        (consoleWritePosition st - consoleReadSemaphore st \<le> i \<and> i < consoleWritePosition st)
          \<or> consoleWritePosition st + consoleWriteSemaphore st \<le> i \<Longrightarrow>
        consoleBuffer st' ! nat i = consoleBuffer st ! nat i"
    and new: "\<And>j. 0 \<le> j \<Longrightarrow> j < n \<Longrightarrow>
        consoleBuffer st' ! nat ((consoleWritePosition st + j) mod CONSOLE_BUFFER_SIZE K) = text ! nat j"
  shows "readable_bytes K st' = readable_bytes K st @ text"
proof -
  let ?C = "CONSOLE_BUFFER_SIZE K" and ?p = "consoleWritePosition st"
  let ?r = "consoleReadSemaphore st" and ?w = "consoleWriteSemaphore st"
  have C: "0 < ?C" and p: "0 \<le> ?p" "?p < ?C" and r: "0 \<le> ?r" and w: "0 \<le> ?w" and wr: "?w + ?r = ?C"
    using inv by (auto simp: channel_inv_def)
  have n0: "0 \<le> n" using n by linarith
  have rc: "read_cursor K st' = read_cursor K st"
  proof -
    have "read_cursor K st' = ((?p + n) mod ?C - (?r + n)) mod ?C"
      by (simp add: read_cursor_def r' p')
    also have "\<dots> = ((?p + n) - (?r + n)) mod ?C"
      by (rule mod_diff_left_eq)
    finally show ?thesis by (simp add: read_cursor_def)
  qed
  have idx: "(read_cursor K st + k) mod ?C = (?p - ?r + k) mod ?C" for k
    unfolding read_cursor_def by (rule mod_add_left_eq)
  show ?thesis
  proof (rule nth_equalityI)
    show "length (readable_bytes K st') = length (readable_bytes K st @ text)"
      using r n n0 by (simp add: readable_bytes_def r' nat_add_distrib)
  next
    fix k assume "k < length (readable_bytes K st')"
    then have k: "int k < ?r + n" using r n0 by (simp add: readable_bytes_def r')
    have kn: "k < nat (?r + n)" using k by linarith
    have lhs: "readable_bytes K st' ! k = consoleBuffer st' ! nat ((?p - ?r + int k) mod ?C)"
      using kn by (simp add: readable_bytes_def r' rc idx)
    show "readable_bytes K st' ! k = (readable_bytes K st @ text) ! k"
    proof (cases "int k < ?r")
      case True
      let ?x = "?p - ?r + int k"
      have range: "- ?C \<le> ?x" "?x < 2 * ?C" using True p r w wr by linarith+
      have m: "?x mod ?C = (if ?x < 0 then ?x + ?C else if ?C \<le> ?x then ?x - ?C else ?x)"
        by (rule mod_shift [OF C range])
      have b: "0 \<le> ?x mod ?C" "?x mod ?C < ?C" using C by simp_all
      have reg: "(?p - ?r \<le> ?x mod ?C \<and> ?x mod ?C < ?p) \<or> ?p + ?w \<le> ?x mod ?C"
        unfolding m using True p r w wr by (auto split: if_splits)
      have "consoleBuffer st' ! nat (?x mod ?C) = consoleBuffer st ! nat (?x mod ?C)"
        by (rule keep [OF b reg])
      moreover have "(readable_bytes K st @ text) ! k = consoleBuffer st ! nat (?x mod ?C)"
      proof -
        have "k < nat ?r" using True by linarith
        then show ?thesis by (simp add: readable_bytes_def nth_append idx)
      qed
      ultimately show ?thesis using lhs by simp
    next
      case False
      let ?j = "int k - ?r"
      have j: "0 \<le> ?j" "?j < n" using False k by linarith+
      have e: "?p - ?r + int k = ?p + ?j" by simp
      have "consoleBuffer st' ! nat ((?p - ?r + int k) mod ?C) = text ! nat ?j"
        unfolding e by (rule new [OF j])
      moreover have "(readable_bytes K st @ text) ! k = text ! nat ?j"
      proof -
        have "length (readable_bytes K st) = nat ?r" by (simp add: readable_bytes_def)
        moreover have "\<not> k < nat ?r" using False r by linarith
        moreover have "k - nat ?r = nat ?j" using False r by linarith
        ultimately show ?thesis by (simp add: nth_append)
      qed
      ultimately show ?thesis using lhs by simp
    qed
  qed
qed


lemma commitsI:
  assumes inv: "channel_inv K st"
    and n: "int (length text) \<le> consoleWriteSemaphore st"
    and len: "length (consoleBuffer st') = length (consoleBuffer st)"
    and w': "consoleWriteSemaphore st' = consoleWriteSemaphore st - int (length text)"
    and r': "consoleReadSemaphore st' = consoleReadSemaphore st + int (length text)"
    and p': "consoleWritePosition st' = (consoleWritePosition st + int (length text)) mod CONSOLE_BUFFER_SIZE K"
    and keep: "\<And>i. 0 \<le> i \<Longrightarrow> i < CONSOLE_BUFFER_SIZE K \<Longrightarrow>
        (consoleWritePosition st - consoleReadSemaphore st \<le> i \<and> i < consoleWritePosition st)
          \<or> consoleWritePosition st + consoleWriteSemaphore st \<le> i \<Longrightarrow>
        consoleBuffer st' ! nat i = consoleBuffer st ! nat i"
    and new: "\<And>j. 0 \<le> j \<Longrightarrow> j < int (length text) \<Longrightarrow>
        consoleBuffer st' ! nat ((consoleWritePosition st + j) mod CONSOLE_BUFFER_SIZE K) = text ! nat j"
  shows "commits K text st st'"
proof -
  have C: "0 < CONSOLE_BUFFER_SIZE K" using inv by (auto simp: channel_inv_def)
  have "channel_inv K st'"
    using inv n C by (simp add: channel_inv_def len w' r' p')
  moreover have "readable_bytes K st' = readable_bytes K st @ text"
    by (rule readable_bytes_append [OF inv refl n r' p' keep new])
  ultimately show ?thesis using keep by (simp add: commits_def w' r' p')
qed

lemma write_fits:
  assumes inv: "channel_inv K st"
    and fits: "int (length text) < consoleWriteSemaphore st"
              "int (length text) < CONSOLE_BUFFER_SIZE K - consoleWritePosition st"
    and ne: "text \<noteq> []"
  shows "\<exists>st'. writeConsoleBuffer K dest (Some text) st = Returns st' \<and> commits K text st st'"
proof -
  let ?n = "int (length text)" and ?C = "CONSOLE_BUFFER_SIZE K" and ?p = "consoleWritePosition st"
  let ?w = "consoleWriteSemaphore st" and ?buf = "consoleBuffer st"
  let ?space = "if ?w < ?C - ?p then ?w else ?C - ?p"
  let ?buf' = "blit ?buf ?p (text @ [0])"
  let ?st' = "emit (ConsoleStr dest) (release ?n
     (st\<lparr>consoleBuffer := ?buf', consoleWriteSemaphore := ?w - ?n, consoleWritePosition := ?p + ?n\<rparr>))"
  have C: "0 < ?C" and p: "0 \<le> ?p" "?p < ?C" and L: "int (length ?buf) = ?C"
    using inv by (auto simp: channel_inv_def)
  have sp: "?n < ?space" "0 < ?space" using fits by auto
  have tk: "take (nat (?space - 1)) text = text" using sp by simp
  have "vsnprintf ?buf ?p ?space (Some text) = Inr (blit ?buf ?p (take (nat (?space - 1)) text @ [0]), ?n)"
    by (rule vsnprintf_ok) (use sp p L fits in auto)
  then have v: "vsnprintf ?buf ?p ?space (Some text) = Inr (?buf', ?n)"
    by (simp only: tk)
  have run: "writeConsoleBuffer K dest (Some text) st = Returns ?st'"
    unfolding writeConsoleBuffer_def Let_def v
    using sp ne fits by (simp add: acquire_def)
  have bnd: "0 \<le> ?p" "?p + int (length (text @ [0])) \<le> int (length ?buf)"
    using p L fits by simp_all
  have "commits K text st ?st'"
  proof (rule commitsI [OF inv])
    show "?n \<le> ?w" using fits by simp
    show "length (consoleBuffer ?st') = length ?buf"
      using length_blit [OF bnd] by (simp add: emit_def release_def)
    show "consoleWritePosition ?st' = (?p + ?n) mod ?C"
      using p fits by (simp add: emit_def release_def)
  next
    fix i assume i: "0 \<le> i" "i < ?C"
      and "(?p - consoleReadSemaphore st \<le> i \<and> i < ?p) \<or> ?p + ?w \<le> i"
    then have out: "i < ?p \<or> ?p + int (length (text @ [0])) \<le> i" using fits by auto
    have "?buf' ! nat i = ?buf ! nat i"
      by (rule nth_blit_out [OF bnd _ _ out]) (use i L in simp_all)
    then show "consoleBuffer ?st' ! nat i = ?buf ! nat i"
      by (simp add: emit_def release_def)
  next
    fix j assume j: "0 \<le> j" "j < ?n"
    have m: "(?p + j) mod ?C = ?p + j" using j p fits by simp
    have "?buf' ! nat (?p + j) = (text @ [0]) ! nat (?p + j - ?p)"
      by (rule nth_blit_in [OF bnd]) (use j in simp_all)
    also have "\<dots> = text ! nat j"
    proof -
      have "nat j < length text" using j by linarith
      then show ?thesis by (simp add: nth_append)
    qed
    finally show "consoleBuffer ?st' ! nat ((?p + j) mod ?C) = text ! nat j"
      by (simp add: m emit_def release_def)
  qed (simp_all add: emit_def release_def)
  with run show ?thesis by blast
qed


lemma nth_slice:
  assumes "0 \<le> j" and "j < n" and "0 \<le> off" and "off + n \<le> int (length mem)"
  shows "take (nat n) (drop (nat off) mem) ! nat j = mem ! nat (off + j)"
proof -
  have a: "nat j < nat n" and b: "nat off + nat j = nat (off + j)" and c: "nat off \<le> length mem"
    using assms by linarith+
  have "take (nat n) (drop (nat off) mem) ! nat j = drop (nat off) mem ! nat j"
    using a by simp
  also have "\<dots> = mem ! (nat off + nat j)" by (rule nth_drop [OF c])
  finally show ?thesis by (simp only: b)
qed

lemma length_slice:
  assumes "0 \<le> n" and "0 \<le> off" and "off + n \<le> int (length mem)"
  shows "int (length (take (nat n) (drop (nat off) mem))) = n"
  using assms by simp

lemma copy_rest_ok:
  assumes "0 \<le> sz" and "sz \<le> consoleWriteSemaphore st"
    and "0 \<le> bp" and "bp + sz \<le> int (length (scratch_mem buffer st))"
    and "0 \<le> consoleWritePosition st" and "consoleWritePosition st + sz \<le> int (length (consoleBuffer st))"
  shows "\<exists>st'. copy_rest dest buffer bp sz st = Returns st'
     \<and> consoleBuffer st' = blit (consoleBuffer st) (consoleWritePosition st)
                               (take (nat sz) (drop (nat bp) (scratch_mem buffer st)))
     \<and> consoleWriteSemaphore st' = consoleWriteSemaphore st - sz
     \<and> consoleReadSemaphore st' = consoleReadSemaphore st + sz
     \<and> consoleWritePosition st' = consoleWritePosition st + sz"
proof (cases "sz = 0")
  case True
  then show ?thesis by (simp add: copy_rest_def blit_Nil)
next
  case False
  let ?st1 = "st\<lparr>consoleWriteSemaphore := consoleWriteSemaphore st - sz\<rparr>"
  have a: "acquire sz st = Some ?st1" by (rule acquire_ok [OF assms(2)])
  have m: "memmove buffer bp sz ?st1 =
     Inr (?st1\<lparr>consoleBuffer := blit (consoleBuffer ?st1) (consoleWritePosition ?st1)
                 (take (nat sz) (drop (nat bp) (scratch_mem buffer ?st1)))\<rparr>)"
    by (rule memmove_ok) (use assms in \<open>simp_all add: scratch_mem_def split: scratch.splits\<close>)
  show ?thesis
    using False by (simp add: copy_rest_def a m emit_def release_def scratch_mem_def split: scratch.splits)
qed

lemma copy_chunks_once_ok:
  assumes "0 \<le> remaining" and "remaining \<le> sz" and "sz - remaining < CONSOLE_BUFFER_SIZE K"
    and "0 < CONSOLE_BUFFER_SIZE K" and "remaining \<le> consoleWriteSemaphore st"
    and "0 \<le> bp" and "bp + remaining \<le> int (length (scratch_mem buffer st))"
    and "0 \<le> consoleWritePosition st"
    and "consoleWritePosition st + remaining \<le> int (length (consoleBuffer st))"
    and "buffer = Ring \<Longrightarrow> consoleWritePosition st + remaining \<le> bp \<or> bp + remaining \<le> consoleWritePosition st"
  shows "\<exists>st'. copy_chunks K dest buffer bp sz remaining st = Returns (bp + remaining, sz - remaining, st')
     \<and> consoleBuffer st' = blit (consoleBuffer st) (consoleWritePosition st)
                               (take (nat remaining) (drop (nat bp) (scratch_mem buffer st)))
     \<and> consoleWriteSemaphore st' = consoleWriteSemaphore st - remaining
     \<and> consoleReadSemaphore st' = consoleReadSemaphore st + remaining
     \<and> consoleWritePosition st' = 0"
proof -
  let ?st1 = "st\<lparr>consoleWriteSemaphore := consoleWriteSemaphore st - remaining\<rparr>"
  let ?st2 = "?st1\<lparr>consoleBuffer := blit (consoleBuffer ?st1) (consoleWritePosition ?st1)
                 (take (nat remaining) (drop (nat bp) (scratch_mem buffer ?st1)))\<rparr>"
  have a: "acquire remaining st = Some ?st1" by (rule acquire_ok [OF assms(5)])
  have mm: "memmove buffer bp remaining ?st1 = Inr ?st2"
    by (rule memmove_ok) (use assms in \<open>simp_all add: scratch_mem_def split: scratch.splits\<close>)
  have "\<not> (buffer = Ring \<and> 0 < remaining \<and> bp < consoleWritePosition ?st1 + remaining
            \<and> consoleWritePosition ?st1 < bp + remaining)"
    using assms(10) by auto
  then have m: "memcpy buffer bp remaining ?st1 = Inr ?st2"
    unfolding memcpy_def using mm by simp
  show ?thesis
    unfolding copy_chunks_once [OF assms(2,3,4) a m]
    by (simp add: emit_def release_def scratch_mem_def split: scratch.splits)
qed


lemma write_ring:
  assumes inv: "channel_inv K st"
    and big: "CONSOLE_BUFFER_SIZE K - consoleWritePosition st \<le> int (length text)"
    and slack: "int (length text) < consoleWriteSemaphore st - (CONSOLE_BUFFER_SIZE K - consoleWritePosition st)"
  shows "\<exists>st'. writeConsoleBuffer K dest (Some text) st = Returns st' \<and> commits K text st st'"
proof -
  let ?n = "int (length text)" and ?C = "CONSOLE_BUFFER_SIZE K" and ?p = "consoleWritePosition st"
  let ?w = "consoleWriteSemaphore st" and ?r = "consoleReadSemaphore st" and ?buf = "consoleBuffer st"
  let ?rem = "?C - ?p"
  let ?space = "if ?w < ?rem then ?w else ?rem"
  have C: "0 < ?C" and p: "0 \<le> ?p" "?p < ?C" and L: "int (length ?buf) = ?C"
    and w: "0 \<le> ?w" and r: "0 \<le> ?r" and wr: "?w + ?r = ?C"
    using inv by (auto simp: channel_inv_def)
  have sp: "?space = ?rem" and rem: "0 < ?rem" using big slack p by auto
  have np: "?n < ?p" using slack wr r by linarith
  \<comment> \<open>the first, truncated formatting\<close>
  let ?buf1 = "blit ?buf ?p (take (nat (?rem - 1)) text @ [0])"
  let ?st1 = "st\<lparr>consoleBuffer := ?buf1\<rparr>"
  have v1: "vsnprintf ?buf ?p ?rem (Some text) = Inr (?buf1, ?n)"
    by (rule vsnprintf_ok) (use rem p L big in auto)
  have b1: "0 \<le> ?p" "?p + int (length (take (nat (?rem - 1)) text @ [0])) \<le> int (length ?buf)"
    using p L big by auto
  have L1: "int (length ?buf1) = ?C" using length_blit [OF b1] L by simp
  \<comment> \<open>the second formatting, into the ring itself\<close>
  let ?buf2 = "blit ?buf1 0 (text @ [0])"
  let ?st2 = "?st1\<lparr>consoleBuffer := ?buf2\<rparr>"
  have "vsnprintf ?buf1 0 (?n + 1) (Some text) = Inr (blit ?buf1 0 (take (nat (?n + 1 - 1)) text @ [0]), ?n)"
    by (rule vsnprintf_ok) (use L1 np p in auto)
  then have v2: "vsnprintf ?buf1 0 (?n + 1) (Some text) = Inr (?buf2, ?n)" by simp
  have f2: "format_scratch Ring (?n + 1) (Some text) ?st1 = Inr (Ring, ?n, ?st2)"
    by (simp add: format_scratch_def scratch_mem_def v2)
  have b2: "(0::int) \<le> 0" "0 + int (length (text @ [0])) \<le> int (length ?buf1)"
    using L1 np p by auto
  have L2: "int (length ?buf2) = ?C" using length_blit [OF b2] L1 by simp
  \<comment> \<open>the chunk up to the end of the array\<close>
  obtain st3 where
    c3: "copy_chunks K dest Ring 0 ?n ?rem ?st2 = Returns (0 + ?rem, ?n - ?rem, st3)"
    and buf3: "consoleBuffer st3 = blit ?buf2 ?p (take (nat ?rem) (drop (nat 0) ?buf2))"
    and w3: "consoleWriteSemaphore st3 = ?w - ?rem"
    and r3: "consoleReadSemaphore st3 = ?r + ?rem"
    and p3: "consoleWritePosition st3 = 0"
  proof -
    have "\<exists>st'. copy_chunks K dest Ring 0 ?n ?rem ?st2 = Returns (0 + ?rem, ?n - ?rem, st')
       \<and> consoleBuffer st' = blit (consoleBuffer ?st2) (consoleWritePosition ?st2)
                               (take (nat ?rem) (drop (nat 0) (scratch_mem Ring ?st2)))
       \<and> consoleWriteSemaphore st' = consoleWriteSemaphore ?st2 - ?rem
       \<and> consoleReadSemaphore st' = consoleReadSemaphore ?st2 + ?rem
       \<and> consoleWritePosition st' = 0"
      by (rule copy_chunks_once_ok)
         (use rem big slack C p L2 np in \<open>auto simp: scratch_mem_def\<close>)
    then show ?thesis using that by (auto simp: scratch_mem_def)
  qed
  let ?buf3 = "consoleBuffer st3"
  have ls3: "int (length (take (nat ?rem) (drop (nat 0) ?buf2))) = ?rem"
    by (rule length_slice) (use rem L2 p in auto)
  have b3: "0 \<le> ?p" "?p + int (length (take (nat ?rem) (drop (nat 0) ?buf2))) \<le> int (length ?buf2)"
    unfolding ls3 using p L2 by auto
  have L3: "int (length ?buf3) = ?C" using length_blit [OF b3] L2 by (simp add: buf3)
  \<comment> \<open>the rest, at the start of the array\<close>
  obtain st4 where
    c4: "copy_rest dest Ring ?rem (?n - ?rem) st3 = Returns st4"
    and buf4: "consoleBuffer st4 = blit ?buf3 0 (take (nat (?n - ?rem)) (drop (nat ?rem) ?buf3))"
    and w4: "consoleWriteSemaphore st4 = ?w - ?n"
    and r4: "consoleReadSemaphore st4 = ?r + ?n"
    and p4: "consoleWritePosition st4 = ?n - ?rem"
  proof -
    have "\<exists>st'. copy_rest dest Ring ?rem (?n - ?rem) st3 = Returns st'
       \<and> consoleBuffer st' = blit (consoleBuffer st3) (consoleWritePosition st3)
                                 (take (nat (?n - ?rem)) (drop (nat ?rem) (scratch_mem Ring st3)))
       \<and> consoleWriteSemaphore st' = consoleWriteSemaphore st3 - (?n - ?rem)
       \<and> consoleReadSemaphore st' = consoleReadSemaphore st3 + (?n - ?rem)
       \<and> consoleWritePosition st' = consoleWritePosition st3 + (?n - ?rem)"
      by (rule copy_rest_ok)
         (use rem big slack C p L3 np w3 p3 in \<open>auto simp: scratch_mem_def\<close>)
    then show ?thesis using that by (auto simp: scratch_mem_def w3 r3 p3)
  qed
  let ?buf4 = "consoleBuffer st4"
  have ls4: "int (length (take (nat (?n - ?rem)) (drop (nat ?rem) ?buf3))) = ?n - ?rem"
    by (rule length_slice) (use rem big L3 np p in auto)
  have b4: "(0::int) \<le> 0" "0 + int (length (take (nat (?n - ?rem)) (drop (nat ?rem) ?buf3))) \<le> int (length ?buf3)"
    unfolding ls4 using p L3 np by auto
  have L4: "int (length ?buf4) = ?C" using length_blit [OF b4] L3 by (simp add: buf4)
  have run: "writeConsoleBuffer K dest (Some text) st = Returns st4"
    unfolding writeConsoleBuffer_def Let_def sp v1
    using big slack by (simp add: f2 c3 [simplified] c4)
  let ?sl3 = "take (nat ?rem) (drop (nat 0) ?buf2)"
  let ?sl4 = "take (nat (?n - ?rem)) (drop (nat ?rem) ?buf3)"
  have out1: "?buf1 ! nat i = ?buf ! nat i" if "0 \<le> i" "i < ?p" for i
    by (rule nth_blit_out [OF b1]) (use that p L in simp_all)
  have in2: "?buf2 ! nat i = text ! nat i" if "0 \<le> i" "i < ?n" for i
  proof -
    have "?buf2 ! nat i = (text @ [0]) ! nat (i - 0)"
      by (rule nth_blit_in [OF b2]) (use that in simp_all)
    moreover have "nat i < length text" using that by linarith
    ultimately show ?thesis by (simp add: nth_append)
  qed
  have out2: "?buf2 ! nat i = ?buf1 ! nat i" if "?n + 1 \<le> i" "i < ?C" for i
    by (rule nth_blit_out [OF b2]) (use that L1 in simp_all)
  have in3: "?buf3 ! nat i = ?sl3 ! nat (i - ?p)" if "?p \<le> i" "i < ?C" for i
    unfolding buf3 by (rule nth_blit_in [OF b3 that(1)]) (simp only: ls3, use that in simp)
  have out3: "?buf3 ! nat i = ?buf2 ! nat i" if "0 \<le> i" "i < ?p" for i
    unfolding buf3 by (rule nth_blit_out [OF b3 that(1)]) (use that p in \<open>simp_all only: L2\<close>, simp_all)
  have in4: "?buf4 ! nat i = ?sl4 ! nat (i - 0)" if "0 \<le> i" "i < ?n - ?rem" for i
    unfolding buf4 by (rule nth_blit_in [OF b4 that(1)]) (simp only: ls4, use that in simp)
  have out4: "?buf4 ! nat i = ?buf3 ! nat i" if "?n - ?rem \<le> i" "i < ?C" for i
    unfolding buf4 by (rule nth_blit_out [OF b4]) (simp_all only: ls4 L3, use that big in simp_all)
  have sl3: "?sl3 ! nat j = ?buf2 ! nat (0 + j)" if "0 \<le> j" "j < ?rem" for j
    by (rule nth_slice) (use that L2 p in simp_all)
  have sl4: "?sl4 ! nat j = ?buf3 ! nat (?rem + j)" if "0 \<le> j" "j < ?n - ?rem" for j
    by (rule nth_slice) (use that L3 np p in simp_all)
  have "commits K text st st4"
  proof (rule commitsI [OF inv])
    show "?n \<le> ?w" using slack rem by linarith
    show "length ?buf4 = length ?buf" using L4 L by simp
    show "consoleWriteSemaphore st4 = ?w - ?n" by (rule w4)
    show "consoleReadSemaphore st4 = ?r + ?n" by (rule r4)
    have "(?p + ?n) mod ?C = (?p + ?n - ?C) mod ?C" by simp
    also have "\<dots> = ?p + ?n - ?C"
      by (rule mod_pos_pos_trivial) (use big np p in linarith)+
    finally show "consoleWritePosition st4 = (?p + ?n) mod ?C" by (simp add: p4)
  next
    fix i assume i: "0 \<le> i" "i < ?C"
      and "(?p - ?r \<le> i \<and> i < ?p) \<or> ?p + ?w \<le> i"
    then have reg: "?n + 1 \<le> i" "i < ?p" using slack wr by linarith+
    have "?buf4 ! nat i = ?buf3 ! nat i" by (rule out4) (use reg i rem in linarith)+
    also have "\<dots> = ?buf2 ! nat i" by (rule out3) (use reg i in linarith)+
    also have "\<dots> = ?buf1 ! nat i" by (rule out2) (use reg i in linarith)+
    also have "\<dots> = ?buf ! nat i" by (rule out1) (use reg i in linarith)+
    finally show "?buf4 ! nat i = ?buf ! nat i" .
  next
    fix j assume j: "0 \<le> j" "j < ?n"
    show "?buf4 ! nat ((?p + j) mod ?C) = text ! nat j"
    proof (cases "j < ?rem")
      case True
      have m: "(?p + j) mod ?C = ?p + j" using True j p by simp
      have "?buf4 ! nat (?p + j) = ?buf3 ! nat (?p + j)"
        by (rule out4) (use j True np p in linarith)+
      also have "\<dots> = ?sl3 ! nat (?p + j - ?p)"
        by (rule in3) (use j True in linarith)+
      also have "\<dots> = ?sl3 ! nat j" by simp
      also have "\<dots> = ?buf2 ! nat (0 + j)" by (rule sl3) (use j True in linarith)+
      also have "\<dots> = text ! nat j" using in2 [OF j] by simp
      finally show ?thesis by (simp only: m)
    next
      case False
      have "(?p + j) mod ?C = (?p + j - ?C) mod ?C" by simp
      also have "\<dots> = ?p + j - ?C"
        by (rule mod_pos_pos_trivial) (use False j np p in linarith)+
      finally have m: "(?p + j) mod ?C = j - ?rem" by simp
      have "?buf4 ! nat (j - ?rem) = ?sl4 ! nat (j - ?rem - 0)"
        by (rule in4) (use j False in linarith)+
      also have "\<dots> = ?sl4 ! nat (j - ?rem)" by simp
      also have "\<dots> = ?buf3 ! nat (?rem + (j - ?rem))"
        by (rule sl4) (use j False in linarith)+
      also have "\<dots> = ?buf3 ! nat j" by simp
      also have "\<dots> = ?buf2 ! nat j" by (rule out3) (use j np in linarith)+
      also have "\<dots> = text ! nat j" by (rule in2 [OF j])
      finally show ?thesis by (simp only: m)
    qed
  qed
  with run show ?thesis by blast
qed


lemma first_format:
  assumes inv: "channel_inv K st"
    and space: "space = (if consoleWriteSemaphore st < CONSOLE_BUFFER_SIZE K - consoleWritePosition st
                         then consoleWriteSemaphore st else CONSOLE_BUFFER_SIZE K - consoleWritePosition st)"
  shows "\<exists>buf1. vsnprintf (consoleBuffer st) (consoleWritePosition st) space (Some text) = Inr (buf1, int (length text))
     \<and> int (length buf1) = CONSOLE_BUFFER_SIZE K
     \<and> (\<forall>i. 0 \<le> i \<and> i < CONSOLE_BUFFER_SIZE K \<and> (i < consoleWritePosition st \<or> consoleWritePosition st + space \<le> i)
            \<longrightarrow> buf1 ! nat i = consoleBuffer st ! nat i)"
proof (cases "space = 0")
  case True
  then show ?thesis using inv by (simp add: vsnprintf_zero channel_inv_def)
next
  case False
  let ?C = "CONSOLE_BUFFER_SIZE K" and ?p = "consoleWritePosition st" and ?buf = "consoleBuffer st"
  let ?bs = "take (nat (space - 1)) text @ [0]"
  have C: "0 < ?C" and p: "0 \<le> ?p" "?p < ?C" and L: "int (length ?buf) = ?C"
    and w: "0 \<le> consoleWriteSemaphore st"
    using inv by (auto simp: channel_inv_def)
  have sp: "0 < space" "?p + space \<le> ?C" using False space w p by (auto split: if_splits)
  have lb: "int (length ?bs) \<le> space" using sp by auto
  have b: "0 \<le> ?p" "?p + int (length ?bs) \<le> int (length ?buf)"
    using p L lb sp by linarith+
  have v: "vsnprintf ?buf ?p space (Some text) = Inr (blit ?buf ?p ?bs, int (length text))"
    by (rule vsnprintf_ok) (use sp p L in auto)
  have "int (length (blit ?buf ?p ?bs)) = ?C" using length_blit [OF b] L by simp
  moreover have "blit ?buf ?p ?bs ! nat i = ?buf ! nat i"
    if "0 \<le> i" "i < ?C" "i < ?p \<or> ?p + space \<le> i" for i
    by (rule nth_blit_out [OF b]) (use that L lb in linarith)+
  ultimately show ?thesis using v by blast
qed

lemma heap_format:
  "format_scratch (Heap (replicate (nat (int (length text) + 1)) 0)) (int (length text) + 1) (Some text) st
     = Inr (Heap (text @ [0]), int (length text), st)"
proof -
  let ?n = "int (length text)" and ?h = "replicate (nat (int (length text) + 1)) (0::byte)"
  have "vsnprintf ?h 0 (?n + 1) (Some text) = Inr (blit ?h 0 (take (nat (?n + 1 - 1)) text @ [0]), ?n)"
    by (rule vsnprintf_ok) simp_all
  moreover have "blit ?h 0 (text @ [0]) = text @ [0]"
    by (rule blit_whole) simp
  ultimately show ?thesis by (simp add: format_scratch_def scratch_mem_def)
qed

lemma write_heap:
  assumes inv: "channel_inv K st"
    and n: "int (length text) \<le> consoleWriteSemaphore st"
    and big: "\<not> int (length text) < (if consoleWriteSemaphore st < CONSOLE_BUFFER_SIZE K - consoleWritePosition st
                         then consoleWriteSemaphore st else CONSOLE_BUFFER_SIZE K - consoleWritePosition st)"
    and noslack: "\<not> int (length text) < consoleWriteSemaphore st - (CONSOLE_BUFFER_SIZE K - consoleWritePosition st)"
  shows "\<exists>st'. writeConsoleBuffer K dest (Some text) st = Returns st' \<and> commits K text st st'"
proof -
  let ?n = "int (length text)" and ?C = "CONSOLE_BUFFER_SIZE K" and ?p = "consoleWritePosition st"
  let ?w = "consoleWriteSemaphore st" and ?r = "consoleReadSemaphore st" and ?buf = "consoleBuffer st"
  let ?rem = "?C - ?p"
  let ?space = "if ?w < ?rem then ?w else ?rem"
  let ?heap = "text @ [0::byte]"
  have C: "0 < ?C" and p: "0 \<le> ?p" "?p < ?C" and L: "int (length ?buf) = ?C"
    and w: "0 \<le> ?w" and r: "0 \<le> ?r" and wr: "?w + ?r = ?C"
    using inv by (auto simp: channel_inv_def)
  have rem: "0 < ?rem" using p by simp
  have "\<exists>buf1. vsnprintf ?buf ?p ?space (Some text) = Inr (buf1, ?n)
     \<and> int (length buf1) = ?C
     \<and> (\<forall>i. 0 \<le> i \<and> i < ?C \<and> (i < ?p \<or> ?p + ?space \<le> i) \<longrightarrow> buf1 ! nat i = ?buf ! nat i)"
    by (rule first_format [OF inv refl])
  then obtain buf1 where v1: "vsnprintf ?buf ?p ?space (Some text) = Inr (buf1, ?n)"
    and L1: "int (length buf1) = ?C"
    and out1: "\<And>i. 0 \<le> i \<Longrightarrow> i < ?C \<Longrightarrow> i < ?p \<or> ?p + ?space \<le> i \<Longrightarrow> buf1 ! nat i = ?buf ! nat i"
    by blast
  let ?st1 = "st\<lparr>consoleBuffer := buf1\<rparr>"
  have heap: "?heap ! nat j = text ! nat j" if "0 \<le> j" "j < ?n" for j
  proof -
    have "nat j < length text" using that by linarith
    then show ?thesis by (simp add: nth_append)
  qed
  have start: "writeConsoleBuffer K dest (Some text) st =
      (case copy_chunks K dest (Heap ?heap) 0 ?n ?rem ?st1 of
         Returns (bufferPosition, sz', st3) \<Rightarrow> copy_rest dest (Heap ?heap) bufferPosition sz' st3
       | Blocked (bufferPosition, sz', st3) \<Rightarrow> Blocked st3
       | Undefined e \<Rightarrow> Undefined e)"
    unfolding writeConsoleBuffer_def Let_def v1
    using big noslack by (simp add: heap_format)
  show ?thesis
  proof (cases "?n < ?rem")
    case True
    then have nw: "?n = ?w" and sp: "?space = ?w" using big n by (auto split: if_splits)
    let ?sl = "take (nat ?n) (drop (nat 0) ?heap)"
    have ls: "int (length ?sl) = ?n" by (rule length_slice) simp_all
    obtain st4 where
      c4: "copy_rest dest (Heap ?heap) 0 ?n ?st1 = Returns st4"
      and buf4: "consoleBuffer st4 = blit buf1 ?p ?sl"
      and w4: "consoleWriteSemaphore st4 = ?w - ?n"
      and r4: "consoleReadSemaphore st4 = ?r + ?n"
      and p4: "consoleWritePosition st4 = ?p + ?n"
    proof -
      have "\<exists>st'. copy_rest dest (Heap ?heap) 0 ?n ?st1 = Returns st'
         \<and> consoleBuffer st' = blit (consoleBuffer ?st1) (consoleWritePosition ?st1)
                                   (take (nat ?n) (drop (nat 0) (scratch_mem (Heap ?heap) ?st1)))
         \<and> consoleWriteSemaphore st' = consoleWriteSemaphore ?st1 - ?n
         \<and> consoleReadSemaphore st' = consoleReadSemaphore ?st1 + ?n
         \<and> consoleWritePosition st' = consoleWritePosition ?st1 + ?n"
        by (rule copy_rest_ok) (use n True p L1 in \<open>auto simp: scratch_mem_def\<close>)
      then show ?thesis using that by (auto simp: scratch_mem_def)
    qed
    let ?buf4 = "consoleBuffer st4"
    have b4: "0 \<le> ?p" "?p + int (length ?sl) \<le> int (length buf1)"
      unfolding ls using p L1 True by linarith+
    have L4: "int (length ?buf4) = ?C" unfolding buf4 length_blit [OF b4] by (rule L1)
    have in4: "?buf4 ! nat i = ?sl ! nat (i - ?p)" if "?p \<le> i" "i < ?p + ?n" for i
      unfolding buf4 by (rule nth_blit_in [OF b4 that(1)]) (simp only: ls, use that in simp)
    have out4: "?buf4 ! nat i = buf1 ! nat i" if "0 \<le> i" "i < ?C" "i < ?p \<or> ?p + ?n \<le> i" for i
      unfolding buf4 by (rule nth_blit_out [OF b4 that(1)]) (simp_all only: ls L1, use that in simp_all)
    have sl: "?sl ! nat j = ?heap ! nat (0 + j)" if "0 \<le> j" "j < ?n" for j
      by (rule nth_slice) (use that in simp_all)
    have run: "writeConsoleBuffer K dest (Some text) st = Returns st4"
      unfolding start using True by (simp add: copy_chunks_none c4)
    have "commits K text st st4"
    proof (rule commitsI [OF inv n])
      show "length ?buf4 = length ?buf" using L4 L by simp
      show "consoleWriteSemaphore st4 = ?w - ?n" by (rule w4)
      show "consoleReadSemaphore st4 = ?r + ?n" by (rule r4)
      show "consoleWritePosition st4 = (?p + ?n) mod ?C" using True p by (simp add: p4)
    next
      fix i assume i: "0 \<le> i" "i < ?C"
        and "(?p - ?r \<le> i \<and> i < ?p) \<or> ?p + ?w \<le> i"
      then have reg: "i < ?p \<or> ?p + ?n \<le> i" using nw by linarith
      have "?buf4 ! nat i = buf1 ! nat i" by (rule out4 [OF i reg])
      also have "\<dots> = ?buf ! nat i" by (rule out1 [OF i]) (use reg nw sp in simp)
      finally show "?buf4 ! nat i = ?buf ! nat i" .
    next
      fix j assume j: "0 \<le> j" "j < ?n"
      have m: "(?p + j) mod ?C = ?p + j" using True j p by simp
      have "?buf4 ! nat (?p + j) = ?sl ! nat (?p + j - ?p)"
        by (rule in4) (use j in linarith)+
      also have "\<dots> = ?sl ! nat j" by simp
      also have "\<dots> = ?heap ! nat (0 + j)" by (rule sl [OF j])
      also have "\<dots> = text ! nat j" using heap [OF j] by simp
      finally show "?buf4 ! nat ((?p + j) mod ?C) = text ! nat j" by (simp only: m)
    qed
    with run show ?thesis by blast
  next
    case False
    then have sp: "?space = ?rem" using n by auto
    have nC: "?n \<le> ?C" using n wr r by linarith
    let ?sl3 = "take (nat ?rem) (drop (nat 0) ?heap)"
    have ls3: "int (length ?sl3) = ?rem"
      by (rule length_slice) (use rem False in simp_all)
    obtain st3 where
      c3: "copy_chunks K dest (Heap ?heap) 0 ?n ?rem ?st1 = Returns (0 + ?rem, ?n - ?rem, st3)"
      and buf3: "consoleBuffer st3 = blit buf1 ?p ?sl3"
      and w3: "consoleWriteSemaphore st3 = ?w - ?rem"
      and r3: "consoleReadSemaphore st3 = ?r + ?rem"
      and p3: "consoleWritePosition st3 = 0"
    proof -
      have "\<exists>st'. copy_chunks K dest (Heap ?heap) 0 ?n ?rem ?st1 = Returns (0 + ?rem, ?n - ?rem, st')
         \<and> consoleBuffer st' = blit (consoleBuffer ?st1) (consoleWritePosition ?st1)
                                 (take (nat ?rem) (drop (nat 0) (scratch_mem (Heap ?heap) ?st1)))
         \<and> consoleWriteSemaphore st' = consoleWriteSemaphore ?st1 - ?rem
         \<and> consoleReadSemaphore st' = consoleReadSemaphore ?st1 + ?rem
         \<and> consoleWritePosition st' = 0"
        by (rule copy_chunks_once_ok)
           (use rem False n nC C p L1 in \<open>auto simp: scratch_mem_def\<close>)
      then show ?thesis using that by (auto simp: scratch_mem_def)
    qed
    let ?buf3 = "consoleBuffer st3"
    have b3: "0 \<le> ?p" "?p + int (length ?sl3) \<le> int (length buf1)"
      unfolding ls3 using p L1 by linarith+
    have L3: "int (length ?buf3) = ?C" unfolding buf3 length_blit [OF b3] by (rule L1)
    let ?sl4 = "take (nat (?n - ?rem)) (drop (nat ?rem) ?heap)"
    have ls4: "int (length ?sl4) = ?n - ?rem"
      by (rule length_slice) (use rem False in simp_all)
    obtain st4 where
      c4: "copy_rest dest (Heap ?heap) ?rem (?n - ?rem) st3 = Returns st4"
      and buf4: "consoleBuffer st4 = blit ?buf3 0 ?sl4"
      and w4: "consoleWriteSemaphore st4 = ?w - ?n"
      and r4: "consoleReadSemaphore st4 = ?r + ?n"
      and p4: "consoleWritePosition st4 = ?n - ?rem"
    proof -
      have "\<exists>st'. copy_rest dest (Heap ?heap) ?rem (?n - ?rem) st3 = Returns st'
         \<and> consoleBuffer st' = blit (consoleBuffer st3) (consoleWritePosition st3)
                                   (take (nat (?n - ?rem)) (drop (nat ?rem) (scratch_mem (Heap ?heap) st3)))
         \<and> consoleWriteSemaphore st' = consoleWriteSemaphore st3 - (?n - ?rem)
         \<and> consoleReadSemaphore st' = consoleReadSemaphore st3 + (?n - ?rem)
         \<and> consoleWritePosition st' = consoleWritePosition st3 + (?n - ?rem)"
        by (rule copy_rest_ok)
           (use rem False n nC C p L3 w3 p3 in \<open>auto simp: scratch_mem_def\<close>)
      then show ?thesis using that by (auto simp: scratch_mem_def w3 r3 p3)
    qed
    let ?buf4 = "consoleBuffer st4"
    have b4: "(0::int) \<le> 0" "0 + int (length ?sl4) \<le> int (length ?buf3)"
      unfolding ls4 using p L3 nC by linarith+
    have L4: "int (length ?buf4) = ?C" unfolding buf4 length_blit [OF b4] by (rule L3)
    have in3: "?buf3 ! nat i = ?sl3 ! nat (i - ?p)" if "?p \<le> i" "i < ?C" for i
      unfolding buf3 by (rule nth_blit_in [OF b3 that(1)]) (simp only: ls3, use that in simp)
    have out3: "?buf3 ! nat i = buf1 ! nat i" if "0 \<le> i" "i < ?p" for i
      unfolding buf3 by (rule nth_blit_out [OF b3 that(1)]) (use that p in \<open>simp_all only: L1\<close>, simp_all)
    have in4: "?buf4 ! nat i = ?sl4 ! nat (i - 0)" if "0 \<le> i" "i < ?n - ?rem" for i
      unfolding buf4 by (rule nth_blit_in [OF b4 that(1)]) (simp only: ls4, use that in simp)
    have out4: "?buf4 ! nat i = ?buf3 ! nat i" if "?n - ?rem \<le> i" "i < ?C" for i
      unfolding buf4 by (rule nth_blit_out [OF b4]) (simp_all only: ls4 L3, use that False in simp_all)
    have sl3: "?sl3 ! nat j = ?heap ! nat (0 + j)" if "0 \<le> j" "j < ?rem" for j
      by (rule nth_slice) (use that False in simp_all)
    have sl4: "?sl4 ! nat j = ?heap ! nat (?rem + j)" if "0 \<le> j" "j < ?n - ?rem" for j
      by (rule nth_slice) (use that rem in simp_all)
    have run: "writeConsoleBuffer K dest (Some text) st = Returns st4"
      unfolding start by (simp add: c3 [simplified] c4)
    have "commits K text st st4"
    proof (rule commitsI [OF inv n])
      show "length ?buf4 = length ?buf" using L4 L by simp
      show "consoleWriteSemaphore st4 = ?w - ?n" by (rule w4)
      show "consoleReadSemaphore st4 = ?r + ?n" by (rule r4)
      have "(?p + ?n) mod ?C = (?p + ?n - ?C) mod ?C" by simp
      also have "\<dots> = ?p + ?n - ?C"
        by (rule mod_pos_pos_trivial) (use False nC p in linarith)+
      finally show "consoleWritePosition st4 = (?p + ?n) mod ?C" by (simp add: p4)
    next
      fix i assume i: "0 \<le> i" "i < ?C"
        and "(?p - ?r \<le> i \<and> i < ?p) \<or> ?p + ?w \<le> i"
      then have reg: "?n - ?rem \<le> i" "i < ?p" using False n wr by linarith+
      have "?buf4 ! nat i = ?buf3 ! nat i" by (rule out4) (use reg i in linarith)+
      also have "\<dots> = buf1 ! nat i" by (rule out3) (use reg i in linarith)+
      also have "\<dots> = ?buf ! nat i" by (rule out1 [OF i]) (use reg in simp)
      finally show "?buf4 ! nat i = ?buf ! nat i" .
    next
      fix j assume j: "0 \<le> j" "j < ?n"
      show "?buf4 ! nat ((?p + j) mod ?C) = text ! nat j"
      proof (cases "j < ?rem")
        case True
        have m: "(?p + j) mod ?C = ?p + j" using True j p by simp
        have "?buf4 ! nat (?p + j) = ?buf3 ! nat (?p + j)"
          by (rule out4) (use j True n wr r p in linarith)+
        also have "\<dots> = ?sl3 ! nat (?p + j - ?p)"
          by (rule in3) (use j True in linarith)+
        also have "\<dots> = ?sl3 ! nat j" by simp
        also have "\<dots> = ?heap ! nat (0 + j)" by (rule sl3) (use j True in linarith)+
        also have "\<dots> = text ! nat j" using heap [OF j] by simp
        finally show ?thesis by (simp only: m)
      next
        case F: False
        have "(?p + j) mod ?C = (?p + j - ?C) mod ?C" by simp
        also have "\<dots> = ?p + j - ?C"
          by (rule mod_pos_pos_trivial) (use F j nC p in linarith)+
        finally have m: "(?p + j) mod ?C = j - ?rem" by simp
        have "?buf4 ! nat (j - ?rem) = ?sl4 ! nat (j - ?rem - 0)"
          by (rule in4) (use j F in linarith)+
        also have "\<dots> = ?sl4 ! nat (j - ?rem)" by simp
        also have "\<dots> = ?heap ! nat (?rem + (j - ?rem))"
          by (rule sl4) (use j F in linarith)+
        also have "\<dots> = ?heap ! nat j" by simp
        also have "\<dots> = text ! nat j" by (rule heap [OF j])
        finally show ?thesis by (simp only: m)
      qed
    qed
    with run show ?thesis by blast
  qed
qed


lemma write_empty:
  assumes inv: "channel_inv K st"
    and sp: "0 < consoleWriteSemaphore st"
  shows "\<exists>st'. writeConsoleBuffer K dest (Some []) st = Returns st' \<and> commits K [] st st'"
proof -
  let ?C = "CONSOLE_BUFFER_SIZE K" and ?p = "consoleWritePosition st"
  let ?w = "consoleWriteSemaphore st" and ?buf = "consoleBuffer st"
  let ?space = "if ?w < ?C - ?p then ?w else ?C - ?p"
  have p: "0 \<le> ?p" "?p < ?C" using inv by (auto simp: channel_inv_def)
  have "\<exists>buf1. vsnprintf ?buf ?p ?space (Some []) = Inr (buf1, int (length ([]::byte list)))
     \<and> int (length buf1) = ?C
     \<and> (\<forall>i. 0 \<le> i \<and> i < ?C \<and> (i < ?p \<or> ?p + ?space \<le> i) \<longrightarrow> buf1 ! nat i = ?buf ! nat i)"
    by (rule first_format [OF inv refl])
  then obtain buf1 where v1: "vsnprintf ?buf ?p ?space (Some []) = Inr (buf1, 0)"
    and L1: "int (length buf1) = ?C"
    and out1: "\<And>i. 0 \<le> i \<Longrightarrow> i < ?C \<Longrightarrow> i < ?p \<or> ?p + ?space \<le> i \<Longrightarrow> buf1 ! nat i = ?buf ! nat i"
    by auto
  let ?st1 = "st\<lparr>consoleBuffer := buf1\<rparr>"
  have run: "writeConsoleBuffer K dest (Some []) st = Returns ?st1"
    unfolding writeConsoleBuffer_def Let_def v1 using sp p by simp
  have "commits K [] st ?st1"
  proof (rule commitsI [OF inv])
    show "length (consoleBuffer ?st1) = length ?buf" using L1 inv by (simp add: channel_inv_def)
    show "consoleWritePosition ?st1 = (?p + int (length ([]::byte list))) mod ?C" using p by simp
  next
    fix i assume i: "0 \<le> i" "i < ?C"
      and "(?p - consoleReadSemaphore st \<le> i \<and> i < ?p) \<or> ?p + ?w \<le> i"
    then have "i < ?p \<or> ?p + ?space \<le> i" by auto
    then show "consoleBuffer ?st1 ! nat i = ?buf ! nat i" using out1 [OF i] by simp
  qed (use sp in simp_all)
  with run show ?thesis by blast
qed

lemma write_error:
  assumes inv: "channel_inv K st"
  shows "writeConsoleBuffer K dest None st = Returns st \<and> commits K [] st st"
proof -
  have a: "writeConsoleBuffer K dest None st = Returns st"
    using inv by (auto simp: writeConsoleBuffer_def vsnprintf_def channel_inv_def Let_def)
  have "commits K [] st st"
    by (rule commitsI [OF inv]) (use inv in \<open>simp_all add: channel_inv_def\<close>)
  with a show ?thesis by simp
qed

lemma write_commits:
  assumes inv: "channel_inv K st"
    and n: "int (length (formatted fmt)) \<le> consoleWriteSemaphore st"
  shows "\<exists>st'. writeConsoleBuffer K dest fmt st = Returns st' \<and> commits K (formatted fmt) st st'"
proof (cases fmt)
  case None
  then show ?thesis using write_error [OF inv] by (simp add: formatted_def)
next
  case (Some t)
  let ?n = "int (length t)" and ?C = "CONSOLE_BUFFER_SIZE K" and ?p = "consoleWritePosition st"
  let ?w = "consoleWriteSemaphore st"
  have nt: "?n \<le> ?w" using n Some by (simp add: formatted_def)
  have p: "0 \<le> ?p" "?p < ?C" using inv by (auto simp: channel_inv_def)
  consider (fits) "?n < ?w" "?n < ?C - ?p" "t \<noteq> []"
    | (empty) "t = []" "0 < ?w"
    | (ring) "?C - ?p \<le> ?n" "?n < ?w - (?C - ?p)"
    | (heap) "\<not> ?n < (if ?w < ?C - ?p then ?w else ?C - ?p)" "\<not> ?n < ?w - (?C - ?p)"
  proof (cases "?n < (if ?w < ?C - ?p then ?w else ?C - ?p)")
    case True
    then have "?n < ?w" "?n < ?C - ?p" by (auto split: if_splits)
    then show ?thesis using fits empty by (cases "t = []") auto
  next
    case False
    then show ?thesis using ring heap nt by (cases "?n < ?w - (?C - ?p)") (auto split: if_splits)
  qed
  then have "\<exists>st'. writeConsoleBuffer K dest (Some t) st = Returns st' \<and> commits K t st st'"
  proof cases
    case fits
    then show ?thesis by (rule write_fits [OF inv])
  next
    case empty
    then show ?thesis using write_empty [OF inv] by simp
  next
    case ring
    then show ?thesis by (rule write_ring [OF inv])
  next
    case heap
    then show ?thesis by (rule write_heap [OF inv nt])
  qed
  then show ?thesis using Some by (simp add: formatted_def)
qed

lemma writes_commit:
  assumes "channel_inv K st"
    and "sum_list (map (\<lambda>c. int (length (formatted (snd c)))) calls) \<le> consoleWriteSemaphore st"
  shows "\<exists>st'. writes K calls st = Returns st'
     \<and> channel_inv K st'
     \<and> readable_bytes K st' = readable_bytes K st @ concat (map (\<lambda>c. formatted (snd c)) calls)"
  using assms
proof (induction calls arbitrary: st)
  case Nil
  then show ?case by simp
next
  case (Cons c calls)
  obtain dest fmt where c: "c = (dest, fmt)" by (cases c)
  let ?n = "int (length (formatted fmt))"
  let ?rest = "sum_list (map (\<lambda>c. int (length (formatted (snd c)))) calls)"
  have "0 \<le> ?rest" by (rule sum_list_nonneg) auto
  with Cons.prems(2) have n: "?n \<le> consoleWriteSemaphore st" by (simp add: c)
  obtain st1 where w1: "writeConsoleBuffer K dest fmt st = Returns st1"
    and c1: "commits K (formatted fmt) st st1"
    using write_commits [OF Cons.prems(1) n] by blast
  have inv1: "channel_inv K st1"
    and sem1: "consoleWriteSemaphore st1 = consoleWriteSemaphore st - ?n"
    and rd1: "readable_bytes K st1 = readable_bytes K st @ formatted fmt"
    using c1 by (simp_all add: commits_def)
  have "?rest \<le> consoleWriteSemaphore st1" using Cons.prems(2) by (simp add: c sem1)
  from Cons.IH [OF inv1 this] obtain st' where
    "writes K calls st1 = Returns st'" "channel_inv K st'"
    "readable_bytes K st' = readable_bytes K st1 @ concat (map (\<lambda>c. formatted (snd c)) calls)"
    by blast
  then show ?case by (simp add: c w1 rd1)
qed


subsection \<open>A call that returns had the permits it needed\<close>

lemma memcpy_sem:
  "memcpy buffer bp n st = Inr st' \<Longrightarrow> consoleWriteSemaphore st' = consoleWriteSemaphore st"
  by (auto simp: memcpy_def memmove_def split: if_splits sum.splits)

lemma copy_chunks_permits:
  assumes "copy_chunks K dest buffer bp sz remaining st = Returns (bp', sz', st')"
    and "0 \<le> consoleWriteSemaphore st"
  shows "consoleWriteSemaphore st' = consoleWriteSemaphore st - (sz - sz') \<and> 0 \<le> consoleWriteSemaphore st'"
  using assms
proof (induction K dest buffer bp sz remaining st rule: copy_chunks.induct)
  case (1 K dest buffer bufferPosition sz remaining st)
  show ?case
  proof (cases "remaining \<le> sz")
    case False
    with "1.prems" show ?thesis by (simp add: copy_chunks.simps)
  next
    case True
    from "1.prems"(1) True obtain st1 st2 where
      a: "acquire remaining st = Some st1"
      and m: "memcpy buffer bufferPosition remaining st1 = Inr st2"
      and C: "\<not> CONSOLE_BUFFER_SIZE K \<le> 0"
      and rec: "copy_chunks K dest buffer (bufferPosition + remaining) (sz - remaining) (CONSOLE_BUFFER_SIZE K)
                  (emit (ConsoleStr dest) (release remaining (st2\<lparr>consoleWritePosition := 0\<rparr>)))
                = Returns (bp', sz', st')"
      by (subst (asm) copy_chunks.simps) (auto split: option.splits sum.splits if_splits)
    let ?st3 = "emit (ConsoleStr dest) (release remaining (st2\<lparr>consoleWritePosition := 0\<rparr>))"
    have w1: "consoleWriteSemaphore st1 = consoleWriteSemaphore st - remaining"
      and le: "remaining \<le> consoleWriteSemaphore st"
      using a by (auto simp: acquire_def split: if_splits)
    have w3: "consoleWriteSemaphore ?st3 = consoleWriteSemaphore st - remaining"
      using memcpy_sem [OF m] w1 by (simp add: emit_def release_def)
    have "0 \<le> consoleWriteSemaphore ?st3" using w3 le by simp
    from "1.IH" [OF True a m C rec this]
    show ?thesis using w3 by simp
  qed
qed

lemma copy_rest_Returns:
  "copy_rest dest buffer bp sz st = Returns st' \<Longrightarrow> sz = 0 \<or> sz \<le> consoleWriteSemaphore st"
  by (auto simp: copy_rest_def acquire_def split: if_splits option.splits sum.splits)

lemma write_heap_start:
  assumes inv: "channel_inv K st"
    and big: "\<not> int (length text) < (if consoleWriteSemaphore st < CONSOLE_BUFFER_SIZE K - consoleWritePosition st
                         then consoleWriteSemaphore st else CONSOLE_BUFFER_SIZE K - consoleWritePosition st)"
    and noslack: "\<not> int (length text) < consoleWriteSemaphore st - (CONSOLE_BUFFER_SIZE K - consoleWritePosition st)"
  shows "\<exists>buf1. writeConsoleBuffer K dest (Some text) st =
      (case copy_chunks K dest (Heap (text @ [0])) 0 (int (length text))
              (CONSOLE_BUFFER_SIZE K - consoleWritePosition st) (st\<lparr>consoleBuffer := buf1\<rparr>) of
         Returns (bufferPosition, sz', st3) \<Rightarrow> copy_rest dest (Heap (text @ [0])) bufferPosition sz' st3
       | Blocked (bufferPosition, sz', st3) \<Rightarrow> Blocked st3
       | Undefined e \<Rightarrow> Undefined e)"
proof -
  let ?n = "int (length text)" and ?C = "CONSOLE_BUFFER_SIZE K" and ?p = "consoleWritePosition st"
  let ?w = "consoleWriteSemaphore st" and ?buf = "consoleBuffer st"
  let ?space = "if ?w < ?C - ?p then ?w else ?C - ?p"
  have "\<exists>buf1. vsnprintf ?buf ?p ?space (Some text) = Inr (buf1, ?n)
     \<and> int (length buf1) = ?C
     \<and> (\<forall>i. 0 \<le> i \<and> i < ?C \<and> (i < ?p \<or> ?p + ?space \<le> i) \<longrightarrow> buf1 ! nat i = ?buf ! nat i)"
    by (rule first_format [OF inv refl])
  then obtain buf1 where v1: "vsnprintf ?buf ?p ?space (Some text) = Inr (buf1, ?n)" by blast
  have "writeConsoleBuffer K dest (Some text) st =
      (case copy_chunks K dest (Heap (text @ [0])) 0 ?n (?C - ?p) (st\<lparr>consoleBuffer := buf1\<rparr>) of
         Returns (bufferPosition, sz', st3) \<Rightarrow> copy_rest dest (Heap (text @ [0])) bufferPosition sz' st3
       | Blocked (bufferPosition, sz', st3) \<Rightarrow> Blocked st3
       | Undefined e \<Rightarrow> Undefined e)"
    unfolding writeConsoleBuffer_def Let_def v1
    using big noslack by (simp add: heap_format)
  then show ?thesis by blast
qed

lemma returns_fits:
  assumes inv: "channel_inv K st"
    and run: "writeConsoleBuffer K dest fmt st = Returns st'"
  shows "int (length (formatted fmt)) \<le> consoleWriteSemaphore st"
proof (cases fmt)
  case None
  then show ?thesis using inv by (simp add: formatted_def channel_inv_def)
next
  case (Some t)
  let ?n = "int (length t)" and ?C = "CONSOLE_BUFFER_SIZE K" and ?p = "consoleWritePosition st"
  let ?w = "consoleWriteSemaphore st"
  have w: "0 \<le> ?w" and p: "?p < ?C" using inv by (auto simp: channel_inv_def)
  have "?n \<le> ?w"
  proof (rule ccontr)
    assume "\<not> ?n \<le> ?w"
    then have gt: "?w < ?n" by simp
    then have big: "\<not> ?n < (if ?w < ?C - ?p then ?w else ?C - ?p)"
      and noslack: "\<not> ?n < ?w - (?C - ?p)"
      using p by auto
    from write_heap_start [OF inv big noslack, of dest] obtain buf1 where
      eq: "writeConsoleBuffer K dest (Some t) st =
        (case copy_chunks K dest (Heap (t @ [0])) 0 ?n (?C - ?p) (st\<lparr>consoleBuffer := buf1\<rparr>) of
           Returns (bufferPosition, sz', st3) \<Rightarrow> copy_rest dest (Heap (t @ [0])) bufferPosition sz' st3
         | Blocked (bufferPosition, sz', st3) \<Rightarrow> Blocked st3
         | Undefined e \<Rightarrow> Undefined e)"
      by blast
    obtain bp sz' st3 where
      c: "copy_chunks K dest (Heap (t @ [0])) 0 ?n (?C - ?p) (st\<lparr>consoleBuffer := buf1\<rparr>) = Returns (bp, sz', st3)"
      and r: "copy_rest dest (Heap (t @ [0])) bp sz' st3 = Returns st'"
    proof (cases "copy_chunks K dest (Heap (t @ [0])) 0 ?n (?C - ?p) (st\<lparr>consoleBuffer := buf1\<rparr>)")
      case (Returns x)
      obtain bp sz' st3 where x: "x = (bp, sz', st3)" by (cases x)
      with Returns eq run Some have "copy_rest dest (Heap (t @ [0])) bp sz' st3 = Returns st'" by simp
      with Returns x that show ?thesis by simp
    next
      case (Blocked x)
      with eq run Some show ?thesis by (simp split: prod.splits)
    next
      case (Undefined e)
      with eq run Some show ?thesis by simp
    qed
    have w3: "consoleWriteSemaphore st3 = ?w - (?n - sz')" "0 \<le> consoleWriteSemaphore st3"
      using copy_chunks_permits [OF c] w by simp_all
    from copy_rest_Returns [OF r] w3 have "?n \<le> ?w" by auto
    with gt show False by simp
  qed
  then show ?thesis using Some by (simp add: formatted_def)
qed

subsection \<open>The sample states\<close>

lemma K8_simps:
  "CONSOLE_BUFFER_SIZE K8 = 8" "EVENT_RESET K8 = 1" "LINK_GOOD K8 = 0" "DBG_USER K8 = 0"
  by (simp_all add: K8_def)

lemma two_unread_simps:
  "consoleBuffer two_unread = [0, 0, 0, 0, 9, 9, 0, 0]"
  "consoleWritePosition two_unread = 6"
  "consoleWriteSemaphore two_unread = 6"
  "consoleReadSemaphore two_unread = 2"
  "trace two_unread = []"
  by (simp_all add: two_unread_def EmuThread_new_def)

lemma inv_two_unread: "channel_inv K8 two_unread"
  by (simp add: channel_inv_def two_unread_simps K8_simps)

lemma readable_two_unread: "readable_bytes K8 two_unread = [9, 9]"
  by (simp add: readable_bytes_def read_cursor_def two_unread_simps K8_simps upt_rec)

lemma constructed_inv:
  "0 < CONSOLE_BUFFER_SIZE K \<Longrightarrow> channel_inv K (EmuThread_new K now)"
  by (simp add: channel_inv_def EmuThread_new_def)

lemma run_ring: "writeConsoleBuffer K8 1 (Some [1, 2, 3]) two_unread =
   Returns (two_unread\<lparr>consoleBuffer := [3, 2, 3, 0, 9, 9, 1, 2], consoleWritePosition := 1,
      consoleWriteSemaphore := 3, consoleReadSemaphore := 5, trace := [ConsoleStr 1, ConsoleStr 1]\<rparr>)"
  by (simp add: writeConsoleBuffer_def vsnprintf_def poke_def blit_def format_scratch_def scratch_mem_def
      copy_chunks.simps acquire_def memcpy_def memmove_def peek_def copy_rest_def emit_def release_def
      two_unread_def EmuThread_new_def K8_simps)

section \<open>The console channel delivers what is written\<close>

text \<open>
  C1. For every sequence of console writes whose total formatted size is at most the
  number of free write permits, run from a state that satisfies the channel invariant,
  every call returns, and the bytes the consumer can read afterwards are those it could
  read before followed by the formatted texts of the calls, in call order: nothing is
  lost, reordered or repeated, the bytes of one call are contiguous, and a message that
  is copied in two chunks arrives whole. A call whose formatting fails contributes no
  byte.
\<close>

theorem writes_deliver_in_order:
  assumes "channel_inv K st"
    and "sum_list (map (\<lambda>c. int (length (formatted (snd c)))) calls) \<le> consoleWriteSemaphore st"
  shows "\<exists>st'. writes K calls st = Returns st'
     \<and> readable_bytes K st' = readable_bytes K st @ concat (map (\<lambda>c. formatted (snd c)) calls)"
  using writes_commit [OF assms] by blast

text \<open>
  The theorem at work: four calls on a channel with two unread bytes and the cursor two
  bytes before the end of the array. The first message is formatted in the ring and
  wraps around, the second call fails to format, the third message fits the space tried
  first, and the last is formatted on the heap and takes the last free bytes.
\<close>

theorem writes_deliver_in_order_witness:
  "channel_inv K8 two_unread
   \<and> sum_list (map (\<lambda>c. int (length (formatted (snd c))))
        [(1, Some [1, 2, 3]), (2, None), (2, Some [4]), (1, Some [5, 6])])
       \<le> consoleWriteSemaphore two_unread
   \<and> (\<exists>st'. writes K8 [(1, Some [1, 2, 3]), (2, None), (2, Some [4]), (1, Some [5, 6])] two_unread = Returns st'
         \<and> readable_bytes K8 st' = [9, 9, 1, 2, 3, 4, 5, 6])"
proof -
  have s: "sum_list (map (\<lambda>c. int (length (formatted (snd c))))
        [(1::int, Some [1, 2, 3 :: byte]), (2, None), (2, Some [4]), (1, Some [5, 6])])
       \<le> consoleWriteSemaphore two_unread"
    by (simp add: formatted_def two_unread_simps)
  show ?thesis
    using writes_deliver_in_order [OF inv_two_unread s] inv_two_unread s
    by (simp add: readable_two_unread formatted_def)
qed

section \<open>The channel invariant\<close>

text \<open>
  C2. After every completed write operation on the console channel, that is a call of
  \<^verbatim>\<open>writeConsoleBuffer\<close> that returns, started in a state that satisfies the channel
  invariant (which the constructor establishes, and in which the permits of
  \<^verbatim>\<open>consoleWriteSemaphore\<close> and \<^verbatim>\<open>consoleReadSemaphore\<close> add up to \<^verbatim>\<open>CONSOLE_BUFFER_SIZE\<close>),
  the invariant holds again: the two semaphores add up to \<^verbatim>\<open>CONSOLE_BUFFER_SIZE\<close>, and
  \<^verbatim>\<open>consoleWritePosition\<close> lies in the array and has advanced, modulo the capacity, by
  exactly the number of bytes committed, which is the number of read permits released
  and the length of the formatted text. The consumer does not run during the call.
\<close>

theorem write_keeps_invariant:
  assumes inv: "channel_inv K st"
    and run: "writeConsoleBuffer K dest fmt st = Returns st'"
  shows "channel_inv K st'
     \<and> consoleWriteSemaphore st' + consoleReadSemaphore st' = CONSOLE_BUFFER_SIZE K
     \<and> 0 \<le> consoleWritePosition st' \<and> consoleWritePosition st' < CONSOLE_BUFFER_SIZE K
     \<and> consoleWritePosition st' =
         (consoleWritePosition st + (consoleReadSemaphore st' - consoleReadSemaphore st)) mod CONSOLE_BUFFER_SIZE K
     \<and> consoleReadSemaphore st' - consoleReadSemaphore st = int (length (formatted fmt))"
proof -
  have n: "int (length (formatted fmt)) \<le> consoleWriteSemaphore st"
    by (rule returns_fits [OF inv run])
  from write_commits [OF inv n, of dest] run
  have c: "commits K (formatted fmt) st st'" by auto
  then have "channel_inv K st'"
    and r: "consoleReadSemaphore st' = consoleReadSemaphore st + int (length (formatted fmt))"
    and p: "consoleWritePosition st' = (consoleWritePosition st + int (length (formatted fmt))) mod CONSOLE_BUFFER_SIZE K"
    by (simp_all add: commits_def)
  then show ?thesis by (simp add: channel_inv_def)
qed

text \<open>A write of three bytes with the cursor at 6 of 8: the cursor wraps around to 1.\<close>

theorem write_keeps_invariant_witness:
  "channel_inv K8 two_unread
   \<and> writeConsoleBuffer K8 1 (Some [1, 2, 3]) two_unread =
       Returns (two_unread\<lparr>consoleBuffer := [3, 2, 3, 0, 9, 9, 1, 2], consoleWritePosition := 1,
          consoleWriteSemaphore := 3, consoleReadSemaphore := 5, trace := [ConsoleStr 1, ConsoleStr 1]\<rparr>)
   \<and> channel_inv K8 (two_unread\<lparr>consoleBuffer := [3, 2, 3, 0, 9, 9, 1, 2], consoleWritePosition := 1,
          consoleWriteSemaphore := 3, consoleReadSemaphore := 5, trace := [ConsoleStr 1, ConsoleStr 1]\<rparr>)
   \<and> consoleWritePosition (two_unread\<lparr>consoleBuffer := [3, 2, 3, 0, 9, 9, 1, 2], consoleWritePosition := 1,
          consoleWriteSemaphore := 3, consoleReadSemaphore := 5, trace := [ConsoleStr 1, ConsoleStr 1]\<rparr>)
       = (consoleWritePosition two_unread + int (length (formatted (Some [1, 2, 3 :: byte]))))
           mod CONSOLE_BUFFER_SIZE K8"
  using write_keeps_invariant [OF inv_two_unread run_ring] inv_two_unread run_ring
  by (simp add: two_unread_simps K8_simps formatted_def)

section \<open>Reusing the ring as scratch area\<close>

text \<open>
  C10. In the oversized-message path of \<^verbatim>\<open>writeConsoleBuffer\<close> (the formatted size is not
  below the space tried first), whenever the ring's own array is the scratch area (the
  case \<^verbatim>\<open>size < available - remaining\<close>), the scratch region, bytes 0 to \<^verbatim>\<open>size\<close>, lies
  below the consumer's read cursor, and the unread bytes are those from the read
  cursor up to the write cursor. The call returns: every access is inside the array,
  the chunk given to \<^verbatim>\<open>memcpy\<close> does not overlap its source, and no permit is missing.
  After it no unread byte has changed, and the readable bytes are the old ones followed
  by the message.
\<close>

theorem ring_scratch_is_free:
  assumes inv: "channel_inv K st"
    and big: "\<not> int (length text) <
                 (if consoleWriteSemaphore st < CONSOLE_BUFFER_SIZE K - consoleWritePosition st
                  then consoleWriteSemaphore st else CONSOLE_BUFFER_SIZE K - consoleWritePosition st)"
    and ring: "int (length text) < consoleWriteSemaphore st - (CONSOLE_BUFFER_SIZE K - consoleWritePosition st)"
  shows "int (length text) + 1 \<le> read_cursor K st
     \<and> read_cursor K st + consoleReadSemaphore st = consoleWritePosition st
     \<and> (\<exists>st'. writeConsoleBuffer K dest (Some text) st = Returns st'
           \<and> (\<forall>i. read_cursor K st \<le> i \<and> i < consoleWritePosition st
                 \<longrightarrow> consoleBuffer st' ! nat i = consoleBuffer st ! nat i)
           \<and> readable_bytes K st' = readable_bytes K st @ text)"
proof -
  let ?n = "int (length text)" and ?C = "CONSOLE_BUFFER_SIZE K" and ?p = "consoleWritePosition st"
  let ?w = "consoleWriteSemaphore st" and ?r = "consoleReadSemaphore st"
  have p: "0 \<le> ?p" "?p < ?C" and r: "0 \<le> ?r" and wr: "?w + ?r = ?C"
    using inv by (auto simp: channel_inv_def)
  have "0 \<le> ?p - ?r" "?p - ?r < ?C" using ring wr r p by linarith+
  then have rc: "read_cursor K st = ?p - ?r" by (simp add: read_cursor_def)
  have below: "?n + 1 \<le> read_cursor K st" using ring wr by (simp add: rc)
  have rem: "?C - ?p \<le> ?n" using big ring by (auto split: if_splits)
  from write_ring [OF inv rem ring, of dest] obtain st' where
    run: "writeConsoleBuffer K dest (Some text) st = Returns st'" and c: "commits K text st st'"
    by blast
  have keep: "consoleBuffer st' ! nat i = consoleBuffer st ! nat i"
    if "read_cursor K st \<le> i" "i < ?p" for i
  proof -
    have "0 \<le> i" "i < ?C" "?p - ?r \<le> i \<and> i < ?p" using that rc below p by linarith+
    with c show ?thesis by (simp add: commits_def)
  qed
  have "readable_bytes K st' = readable_bytes K st @ text" using c by (simp add: commits_def)
  with below rc run keep show ?thesis by simp
qed

text \<open>
  With the cursor at 6 of 8 and bytes 4 and 5 unread, a message of three bytes is
  formatted into bytes 0 to 3 of the array and then moved into place; bytes 4 and 5 are
  untouched.
\<close>

theorem ring_scratch_is_free_witness:
  "channel_inv K8 two_unread
   \<and> \<not> int (length [1, 2, 3 :: byte]) <
         (if consoleWriteSemaphore two_unread < CONSOLE_BUFFER_SIZE K8 - consoleWritePosition two_unread
          then consoleWriteSemaphore two_unread else CONSOLE_BUFFER_SIZE K8 - consoleWritePosition two_unread)
   \<and> int (length [1, 2, 3 :: byte])
        < consoleWriteSemaphore two_unread - (CONSOLE_BUFFER_SIZE K8 - consoleWritePosition two_unread)
   \<and> read_cursor K8 two_unread = 4
   \<and> (\<exists>st'. writeConsoleBuffer K8 2 (Some [1, 2, 3]) two_unread = Returns st'
         \<and> consoleBuffer st' ! 4 = 9 \<and> consoleBuffer st' ! 5 = 9
         \<and> readable_bytes K8 st' = [9, 9, 1, 2, 3])"
proof -
  have big: "\<not> int (length [1, 2, 3 :: byte]) <
         (if consoleWriteSemaphore two_unread < CONSOLE_BUFFER_SIZE K8 - consoleWritePosition two_unread
          then consoleWriteSemaphore two_unread else CONSOLE_BUFFER_SIZE K8 - consoleWritePosition two_unread)"
    by (simp add: two_unread_simps K8_simps)
  have ring: "int (length [1, 2, 3 :: byte])
        < consoleWriteSemaphore two_unread - (CONSOLE_BUFFER_SIZE K8 - consoleWritePosition two_unread)"
    by (simp add: two_unread_simps K8_simps)
  have rc: "read_cursor K8 two_unread = 4"
    by (simp add: read_cursor_def two_unread_simps K8_simps)
  from ring_scratch_is_free [OF inv_two_unread big ring, of 2] obtain st' where
    run: "writeConsoleBuffer K8 2 (Some [1, 2, 3]) two_unread = Returns st'"
    and keep: "\<And>i. read_cursor K8 two_unread \<le> i \<Longrightarrow> i < consoleWritePosition two_unread
                 \<Longrightarrow> consoleBuffer st' ! nat i = consoleBuffer two_unread ! nat i"
    and rb: "readable_bytes K8 st' = readable_bytes K8 two_unread @ [1, 2, 3]"
    by blast
  have "consoleBuffer st' ! nat 4 = consoleBuffer two_unread ! nat 4"
    by (rule keep) (simp_all add: rc two_unread_simps)
  moreover have "consoleBuffer st' ! nat 5 = consoleBuffer two_unread ! nat 5"
    by (rule keep) (simp_all add: rc two_unread_simps)
  ultimately have "consoleBuffer st' ! 4 = 9" "consoleBuffer st' ! 5 = 9"
    by (simp_all add: two_unread_simps)
  with run rb inv_two_unread big ring rc show ?thesis
    by (simp add: readable_two_unread)
qed


section \<open>The checkpoint sends a batch\<close>

declare sendFiles_loop.simps [simp del]

lemma sendFiles_loop_trace:
  assumes "0 \<le> i" and "fileNum = int (length (vars st))"
  shows "sendFiles_loop link fileNum i st =
     st\<lparr>trace := trace st @ map (\<lambda>f. SentFile f (link f (sendLoc st))) (drop (nat i) (vars st))\<rparr>"
  using assms
proof (induction link fileNum i st rule: sendFiles_loop.induct)
  case (1 link fileNum i st)
  show ?case
  proof (cases "i < fileNum")
    case False
    then have "drop (nat i) (vars st) = []" using "1.prems" by simp
    with False show ?thesis by (simp add: sendFiles_loop.simps)
  next
    case True
    let ?f = "vars st ! nat i"
    let ?st1 = "emit (SentFile ?f (link ?f (sendLoc st))) st"
    have i: "nat i < length (vars st)" using True "1.prems" by linarith
    have d: "drop (nat i) (vars st) = ?f # drop (nat (i + 1)) (vars st)"
      using Cons_nth_drop_Suc [OF i] "1.prems"(1) by (simp add: nat_add_distrib)
    have "sendFiles_loop link fileNum (i + 1) ?st1 =
       ?st1\<lparr>trace := trace ?st1 @ map (\<lambda>f. SentFile f (link f (sendLoc ?st1))) (drop (nat (i + 1)) (vars ?st1))\<rparr>"
      by (rule "1.IH" [OF True]) (use "1.prems" in \<open>simp_all add: emit_def\<close>)
    then show ?thesis
      using True by (subst sendFiles_loop.simps) (simp add: emit_def d)
  qed
qed

lemma sendFiles_trace:
  "sendFiles K link st =
     st\<lparr>trace := trace st @ map (\<lambda>f. SentFile f (link f (sendLoc st))) (vars st) @ [SentFile [] (LINK_GOOD K)]\<rparr>"
  by (simp add: sendFiles_def sendFiles_loop_trace emit_def)

lemma filter_SentFile_map [simp]:
  "filter is_SentFile (map (\<lambda>f. SentFile f (g f)) fs) = map (\<lambda>f. SentFile f (g f)) fs"
  by (induction fs) (simp_all add: is_SentFile_def)

lemma doStuff_reaches: "\<exists>st'. reached (doStuff K W cur_time now st) = Some st'"
  by (simp add: doStuff_def reached_def Let_def)

text \<open>
  C7. For every requested send batch of N items, \<^verbatim>\<open>sendFiles\<close> emits N \<^verbatim>\<open>sentFile\<close> events,
  one per item in the order of the list, each with the status \<^verbatim>\<open>sendVariableLink\<close> gave
  for that item, whatever that status is, and then one \<^verbatim>\<open>sentFile\<close> event with an empty
  name and the status \<^verbatim>\<open>LINK_GOOD\<close>. These are all the \<^verbatim>\<open>sentFile\<close> events of a checkpoint
  that finds a send request pending, whether the checkpoint returns or stays at the
  gate of a receive request.
\<close>

theorem send_batch_events:
  "trace (sendFiles K link st) =
     trace st @ map (\<lambda>f. SentFile f (link f (sendLoc st))) (vars st) @ [SentFile [] (LINK_GOOD K)]
   \<and> (enterSendState st \<and> reached (doStuff K W cur_time now st) = Some st' \<longrightarrow>
        filter is_SentFile (drop (length (trace st)) (trace st')) =
          map (\<lambda>f. SentFile f (sendVariableLink W f (sendLoc st))) (vars st) @ [SentFile [] (LINK_GOOD K)])"
  by (auto simp: sendFiles_trace doStuff_def reached_def Let_def emit_def is_SentFile_def
      split: if_splits)

text \<open>A batch of two files, the second of which fails with status 2.\<close>

theorem send_batch_events_witness:
  "enterSendState batch_pending
   \<and> (\<exists>st'. reached (doStuff K8 second_fails 0 0 batch_pending) = Some st'
         \<and> filter is_SentFile (drop (length (trace batch_pending)) (trace st')) =
             [SentFile ''PRGM1'' 0, SentFile ''LIST2'' 2, SentFile [] 0])"
proof -
  have e: "enterSendState batch_pending"
    by (simp add: batch_pending_def send_def)
  obtain st' where r: "reached (doStuff K8 second_fails 0 0 batch_pending) = Some st'"
    using doStuff_reaches by blast
  have "filter is_SentFile (drop (length (trace batch_pending)) (trace st')) =
          map (\<lambda>f. SentFile f (sendVariableLink second_fails f (sendLoc batch_pending))) (vars batch_pending)
            @ [SentFile [] (LINK_GOOD K8)]"
    using send_batch_events [of K8 "sendVariableLink second_fails" batch_pending second_fails 0 0 st'] e r
    by blast
  then have "filter is_SentFile (drop (length (trace batch_pending)) (trace st')) =
             [SentFile ''PRGM1'' 0, SentFile ''LIST2'' 2, SentFile [] 0]"
    by (simp add: batch_pending_def send_def second_fails_def K8_simps)
  with e r show ?thesis by blast
qed

section \<open>Leaving the debugger\<close>

text \<open>
  C8, as the claim states it, fails: outside the debugger, with an enter request
  pending, \<^verbatim>\<open>debug(false)\<close> changes the state. It withdraws the request.
\<close>

theorem debug_exit_withdraws_request:
  "\<not> inDebugger enter_pending \<and> enterDebugger enter_pending
   \<and> \<not> enterDebugger (debug False enter_pending)
   \<and> debug False enter_pending \<noteq> enter_pending"
proof -
  have a: "\<not> inDebugger enter_pending" "enterDebugger enter_pending"
    "\<not> enterDebugger (debug False enter_pending)"
    by (simp_all add: enter_pending_def debug_def EmuThread_new_def)
  then have "debug False enter_pending \<noteq> enter_pending" by metis
  with a show ?thesis by simp
qed

text \<open>
  C8, amended. \<^verbatim>\<open>debug(false)\<close> always clears the enter request \<^verbatim>\<open>enterDebugger\<close>. Inside
  the debugger it then clears the temporary breakpoint state and closes the debugger,
  in this order. Outside the debugger it calls neither and changes nothing else, so
  there it is a no-op exactly when no enter request is pending.
\<close>

theorem debug_exit_effect:
  "(inDebugger st \<longrightarrow>
      debug False st = st\<lparr>enterDebugger := False, trace := trace st @ [Debug_clear_temp_break, Close_debugger]\<rparr>)
   \<and> (\<not> inDebugger st \<longrightarrow> debug False st = st\<lparr>enterDebugger := False\<rparr>)
   \<and> (\<not> inDebugger st \<and> \<not> enterDebugger st \<longrightarrow> debug False st = st)
   \<and> (\<not> inDebugger st \<and> enterDebugger st \<longrightarrow> debug False st \<noteq> st)"
proof -
  have "st\<lparr>enterDebugger := False\<rparr> \<noteq> st" if "enterDebugger st"
  proof
    assume "st\<lparr>enterDebugger := False\<rparr> = st"
    then have "enterDebugger (st\<lparr>enterDebugger := False\<rparr>) = enterDebugger st" by simp
    with that show False by simp
  qed
  then show ?thesis by (auto simp: debug_def emit_def Let_def)
qed

text \<open>Inside the debugger; outside it with no request pending; and outside it with a
  request pending.\<close>

theorem debug_exit_effect_witness:
  "inDebugger inside_debugger
   \<and> trace (debug False inside_debugger) = [Debug_clear_temp_break, Close_debugger]
   \<and> \<not> inDebugger (EmuThread_new K8 0) \<and> \<not> enterDebugger (EmuThread_new K8 0)
   \<and> debug False (EmuThread_new K8 0) = EmuThread_new K8 0
   \<and> \<not> inDebugger enter_pending \<and> enterDebugger enter_pending
   \<and> debug False enter_pending = enter_pending\<lparr>enterDebugger := False\<rparr>"
  using debug_exit_effect [of inside_debugger] debug_exit_effect [of "EmuThread_new K8 0"]
    debug_exit_effect [of enter_pending]
  by (simp add: inside_debugger_def enter_pending_def debug_def EmuThread_new_def)

section \<open>Stopping\<close>

text \<open>
  C4. \<^verbatim>\<open>stop()\<close> returns true at once, changing nothing, when the thread is not running.
  Otherwise it sets \<^verbatim>\<open>exiting\<close> and zeroes \<^verbatim>\<open>cpu.next\<close> and waits up to 200 ms. If the
  thread exits in that time it returns true without calling \<^verbatim>\<open>terminate()\<close>. If not, it
  calls \<^verbatim>\<open>terminate()\<close> and waits a second 200 ms, and returns false only if the thread
  has still not exited.
\<close>

theorem stop_outcomes:
  "(\<not> isRunning st \<longrightarrow> stop exits dies st = (True, st))
   \<and> (isRunning st \<longrightarrow>
        fst (stop exits dies st) = (exits \<or> dies)
        \<and> exiting (snd (stop exits dies st)) \<and> cpu_next (snd (stop exits dies st)) = 0
        \<and> isRunning (snd (stop exits dies st)) = (\<not> exits \<and> \<not> dies)
        \<and> trace (snd (stop exits dies st)) =
            trace st @ (if exits then [Wait_ms 200, Stopped] else [Wait_ms 200, Terminate, Wait_ms 200]))"
  by (simp add: stop_def thread_wait_def run_returns_def emit_def Let_def)

text \<open>A thread that is not running; one that exits in time; and one that survives
  \<^verbatim>\<open>terminate()\<close>.\<close>

theorem stop_outcomes_witness:
  "\<not> isRunning (EmuThread_new K8 0) \<and> stop False False (EmuThread_new K8 0) = (True, EmuThread_new K8 0)
   \<and> isRunning running
   \<and> fst (stop True False running) = True
   \<and> trace (snd (stop True False running)) = [Wait_ms 200, Stopped]
   \<and> fst (stop False False running) = False
   \<and> cpu_next (snd (stop False False running)) = 0
   \<and> trace (snd (stop False False running)) = [Wait_ms 200, Terminate, Wait_ms 200]"
  using stop_outcomes [of "EmuThread_new K8 0" False False]
    stop_outcomes [of running True False] stop_outcomes [of running False False]
  by (simp add: running_def EmuThread_new_def)

section \<open>The throttle\<close>

lemma interval_of_nonzero:
  "v \<noteq> 0 \<Longrightarrow> interval_of v = Some (1000000 * 100 sdiv v * 50 sdiv 3)"
  by (simp add: interval_of_def divide_def)

lemma unit_over_nonzero:
  "elapsed \<noteq> 0 \<Longrightarrow> unit_over elapsed = Some (5000000000 sdiv (3 * elapsed))"
  by (simp add: unit_over_def divide_def)

lemma speed_zero_loop_nonzero:
  "speed st \<noteq> 0 \<Longrightarrow> speed_zero_loop ctl st = Returns st"
  by (cases ctl) simp_all

lemma slices_Nil: "slices [] = 0"
  by (simp add: slices_def)

lemma slices_Cons: "slices (c # ctl) = (if keeps_zero c then Suc (slices ctl) else 1)"
  by (simp add: slices_def)

lemma speed_zero_loop_sleeps:
  assumes "speed st = 0"
  shows "\<exists>st'. (speed_zero_loop ctl st = Returns st' \<and> speed st' \<noteq> 0
               \<or> speed_zero_loop ctl st = Blocked st' \<and> speed st' = 0)
     \<and> trace st' = trace st @ replicate (slices ctl) (Usleep 10000)
     \<and> actualSpeed st' = actualSpeed st \<and> lastTime st' = lastTime st"
  using assms
proof (induction ctl arbitrary: st)
  case Nil
  then show ?case by (simp add: slices_Nil)
next
  case (Cons c ctl)
  let ?st1 = "case c of None \<Rightarrow> emit (Usleep 10000) st | Some v \<Rightarrow> setEmuSpeed v (emit (Usleep 10000) st)"
  have step: "speed_zero_loop (c # ctl) st = speed_zero_loop ctl ?st1"
    using Cons.prems by simp
  have f: "trace ?st1 = trace st @ [Usleep 10000]" "actualSpeed ?st1 = actualSpeed st"
    "lastTime ?st1 = lastTime st"
    by (simp_all add: emit_def setEmuSpeed_def split: option.splits)
  have sp: "speed ?st1 = 0 \<longleftrightarrow> keeps_zero c"
    using Cons.prems by (auto simp: emit_def setEmuSpeed_def keeps_zero_def split: option.splits)
  show ?case
  proof (cases "keeps_zero c")
    case True
    then have "speed ?st1 = 0" using sp by simp
    from Cons.IH [OF this] obtain st' where
      "speed_zero_loop ctl ?st1 = Returns st' \<and> speed st' \<noteq> 0
         \<or> speed_zero_loop ctl ?st1 = Blocked st' \<and> speed st' = 0"
      "trace st' = trace ?st1 @ replicate (slices ctl) (Usleep 10000)"
      "actualSpeed st' = actualSpeed ?st1" "lastTime st' = lastTime ?st1"
      by blast
    then show ?thesis
      unfolding step f using True
      by (intro exI [of _ st']) (simp add: slices_Cons replicate_append_same)
  next
    case False
    then have nz: "speed ?st1 \<noteq> 0" using sp by simp
    have "speed_zero_loop ctl ?st1 = Returns ?st1" by (rule speed_zero_loop_nonzero [OF nz])
    then show ?thesis
      unfolding step using False nz f
      by (intro exI [of _ ?st1]) (simp add: slices_Cons)
  qed
qed

lemma speed_zero_loop_defined: "speed_zero_loop ctl st \<noteq> Undefined e"
  by (induction ctl arbitrary: st) auto

text \<open>
  C5, as the claim states it, fails: with the calculator switched off (\<^verbatim>\<open>control.off\<close>)
  \<^verbatim>\<open>setActualSpeed\<close> does nothing, so the throttled branch leaves the achieved speed at
  100 although the requested speed is 50, and emits no \<^verbatim>\<open>actualSpeedChanged\<close>.
\<close>

theorem throttled_wait_off_keeps_speed:
  "speed off_half_speed = 50 \<and> throttleOn off_half_speed
   \<and> (0::int) < lastTime off_half_speed + 33333333
   \<and> throttleTimerWait [] 0 off_half_speed =
       Returns (off_half_speed\<lparr>lastTime := 33333333, trace := [Sleep_until 33333333]\<rparr>)
   \<and> actualSpeed (off_half_speed\<lparr>lastTime := 33333333, trace := [Sleep_until 33333333]\<rparr>) = 100"
  by (simp add: off_half_speed_def setEmuSpeed_def EmuThread_new_def throttleTimerWait_def
      interval_of_def divide_def signed_divide_int_def setActualSpeed_def emit_def)

text \<open>
  C5, amended. In \<^verbatim>\<open>throttleTimerWait\<close>, when the speed is not 0, throttling is enabled and
  the current time is before the deadline \<^verbatim>\<open>lastTime + interval\<close>, where the interval is
  \<^verbatim>\<open>1000000 * 100 / speed\<close> ticks of 1/60000000 s, in nanoseconds, the routine returns
  after this: unless \<^verbatim>\<open>control.off\<close> is set it has made the requested speed the achieved
  speed, emitting \<^verbatim>\<open>actualSpeedChanged\<close> if the value changed, and with \<^verbatim>\<open>control.off\<close> set
  it has left the achieved speed as it was and emitted nothing; it has set \<^verbatim>\<open>lastTime\<close>
  to the deadline, not to the current time; and it has slept until the deadline.
\<close>

theorem throttled_wait:
  assumes "speed st \<noteq> 0" and "throttleOn st"
    and "now < lastTime st + 1000000 * 100 sdiv speed st * 50 sdiv 3"
  shows "throttleTimerWait ctl now st =
     Returns (st\<lparr>actualSpeed := (if control_off st then actualSpeed st else speed st),
                lastTime := lastTime st + 1000000 * 100 sdiv speed st * 50 sdiv 3,
                trace := trace st
                  @ (if \<not> control_off st \<and> actualSpeed st \<noteq> speed st then [ActualSpeedChanged (speed st)] else [])
                  @ [Sleep_until (lastTime st + 1000000 * 100 sdiv speed st * 50 sdiv 3)]\<rparr>)"
  using assms
  by (simp add: throttleTimerWait_def interval_of_nonzero setActualSpeed_def emit_def Let_def)

text \<open>At half speed the interval is two sixtieths of a second.\<close>

theorem throttled_wait_witness:
  "speed half_speed \<noteq> 0 \<and> throttleOn half_speed
   \<and> (0::int) < lastTime half_speed + 1000000 * 100 sdiv speed half_speed * 50 sdiv 3
   \<and> throttleTimerWait [] 0 half_speed =
       Returns (half_speed\<lparr>actualSpeed := 50, lastTime := 33333333,
                  trace := [ActualSpeedChanged 50, Sleep_until 33333333]\<rparr>)"
proof -
  have a: "speed half_speed \<noteq> 0" "throttleOn half_speed"
    "(0::int) < lastTime half_speed + 1000000 * 100 sdiv speed half_speed * 50 sdiv 3"
    by (simp_all add: half_speed_def setEmuSpeed_def EmuThread_new_def signed_divide_int_def)
  show ?thesis
    using throttled_wait [OF a, of "[]"] a
    by (simp add: half_speed_def setEmuSpeed_def EmuThread_new_def signed_divide_int_def)
qed

text \<open>
  C6, as the claim states it, fails: with \<^verbatim>\<open>control.off\<close> set and the speed at 0 the
  routine sleeps until the speed is set to 100 and returns without having published
  an actual speed of 0: the achieved speed is still 100.
\<close>

theorem zero_speed_off_publishes_nothing:
  "speed off_speed_zero = 0
   \<and> throttleTimerWait [None, Some 100] 0 off_speed_zero =
       Returns (off_speed_zero\<lparr>speed := 100, trace := [Usleep 10000, Usleep 10000]\<rparr>)
   \<and> actualSpeed (off_speed_zero\<lparr>speed := 100, trace := [Usleep 10000, Usleep 10000]\<rparr>) = 100"
  by (simp add: off_speed_zero_def setEmuSpeed_def EmuThread_new_def throttleTimerWait_def
      setActualSpeed_def emit_def)

text \<open>
  C6, amended. Whenever the speed is 0, \<^verbatim>\<open>throttleTimerWait\<close> makes 0 the achieved speed
  unless \<^verbatim>\<open>control.off\<close> is set, emitting \<^verbatim>\<open>actualSpeedChanged(0)\<close> once if the value was not
  0 before; with \<^verbatim>\<open>control.off\<close> set it leaves the achieved speed as it was and emits
  nothing. Either way it publishes no other actual speed. It then sleeps in slices of
  10000 microseconds, reading the speed again after each, and returns when the speed
  is no longer 0; while the speed stays 0 it goes on sleeping. It does not touch
  \<^verbatim>\<open>lastTime\<close>, the state of the interval machinery.
\<close>

theorem zero_speed_wait:
  assumes "speed st = 0"
  shows "\<exists>st'. (throttleTimerWait ctl now st = Returns st' \<and> speed st' \<noteq> 0
               \<or> throttleTimerWait ctl now st = Blocked st' \<and> speed st' = 0)
     \<and> trace st' = trace st
          @ (if \<not> control_off st \<and> actualSpeed st \<noteq> 0 then [ActualSpeedChanged 0] else [])
          @ replicate (slices ctl) (Usleep 10000)
     \<and> actualSpeed st' = (if control_off st then actualSpeed st else 0)
     \<and> lastTime st' = lastTime st"
proof -
  let ?st0 = "setActualSpeed 0 st"
  have z: "speed ?st0 = 0" using assms by (simp add: setActualSpeed_def emit_def)
  have f: "trace ?st0 = trace st @ (if \<not> control_off st \<and> actualSpeed st \<noteq> 0 then [ActualSpeedChanged 0] else [])"
    "actualSpeed ?st0 = (if control_off st then actualSpeed st else 0)" "lastTime ?st0 = lastTime st"
    by (simp_all add: setActualSpeed_def emit_def)
  have t: "throttleTimerWait ctl now st = speed_zero_loop ctl ?st0"
    using assms by (simp add: throttleTimerWait_def)
  from speed_zero_loop_sleeps [OF z, of ctl] show ?thesis
    unfolding t f by simp
qed

text \<open>The speed is set to 100 during the second sleep.\<close>

theorem zero_speed_wait_witness:
  "speed speed_zero = 0
   \<and> (\<exists>st'. throttleTimerWait [None, Some 100] 7 speed_zero = Returns st'
         \<and> speed st' = 100
         \<and> trace st' = [ActualSpeedChanged 0, Usleep 10000, Usleep 10000]
         \<and> actualSpeed st' = 0 \<and> lastTime st' = 0)"
proof -
  have z: "speed speed_zero = 0" by (simp add: speed_zero_def setEmuSpeed_def)
  have run: "throttleTimerWait [None, Some 100] 7 speed_zero =
      Returns (speed_zero\<lparr>speed := 100, actualSpeed := 0,
                 trace := [ActualSpeedChanged 0, Usleep 10000, Usleep 10000]\<rparr>)"
    by (simp add: speed_zero_def setEmuSpeed_def EmuThread_new_def throttleTimerWait_def
        setActualSpeed_def emit_def)
  from zero_speed_wait [OF z, of "[None, Some 100]" 7] obtain st' where
    "throttleTimerWait [None, Some 100] 7 speed_zero = Returns st' \<and> speed st' \<noteq> 0
       \<or> throttleTimerWait [None, Some 100] 7 speed_zero = Blocked st' \<and> speed st' = 0"
    "trace st' = trace speed_zero
          @ (if \<not> control_off speed_zero \<and> actualSpeed speed_zero \<noteq> 0 then [ActualSpeedChanged 0] else [])
          @ replicate (slices [None, Some 100]) (Usleep 10000)"
    "actualSpeed st' = (if control_off speed_zero then actualSpeed speed_zero else 0)"
    "lastTime st' = lastTime speed_zero"
    by blast
  with run have "throttleTimerWait [None, Some 100] 7 speed_zero = Returns st'"
    "speed st' = 100"
    "trace st' = [ActualSpeedChanged 0, Usleep 10000, Usleep 10000]"
    "actualSpeed st' = 0" "lastTime st' = 0"
    by (auto simp: speed_zero_def setEmuSpeed_def EmuThread_new_def slices_def keeps_zero_def)
  with z show ?thesis by blast
qed

text \<open>
  C9. \<^verbatim>\<open>throttleTimerWait\<close> never divides by zero. In its behind-schedule branch (the speed
  is not 0, and throttling is off or the deadline has passed) the quotient
  \<^verbatim>\<open>unit / (cur_time - lastTime)\<close> is evaluated only when \<^verbatim>\<open>lastTime != cur_time\<close>: then
  the divisor is not zero and the quotient is the new achieved speed; when the two
  times are equal the routine only yields.

  The call reads \<^verbatim>\<open>speed\<close> from the state it is given: the statement is about a call
  during which no other thread writes \<^verbatim>\<open>speed\<close>. The times are unbounded integers, as
  they are for clock readings whose distance stays within the range of the 64-bit
  tick count.
\<close>

theorem elapsed_division_defined:
  "throttleTimerWait ctl now st \<noteq> Undefined e
   \<and> (speed st \<noteq> 0 \<and> \<not> (throttleOn st \<and> now < lastTime st + 1000000 * 100 sdiv speed st * 50 sdiv 3) \<longrightarrow>
        (if lastTime st \<noteq> now
         then unit_over (now - lastTime st) = Some (5000000000 sdiv (3 * (now - lastTime st)))
              \<and> throttleTimerWait ctl now st =
                  Returns (emit Yield ((setActualSpeed (5000000000 sdiv (3 * (now - lastTime st))) st)\<lparr>lastTime := now\<rparr>))
         else throttleTimerWait ctl now st = Returns (emit Yield st)))"
proof (cases "speed st = 0")
  case True
  then show ?thesis by (simp add: throttleTimerWait_def speed_zero_loop_defined)
next
  case False
  then show ?thesis
    by (auto simp: throttleTimerWait_def interval_of_nonzero unit_over_nonzero Let_def)
qed

text \<open>Without throttling, two sixtieths of a second after \<^verbatim>\<open>lastTime\<close>: the speed is 50.\<close>

theorem elapsed_division_defined_witness:
  "speed unthrottled \<noteq> 0
   \<and> \<not> (throttleOn unthrottled \<and> 33333332 < lastTime unthrottled + 1000000 * 100 sdiv speed unthrottled * 50 sdiv 3)
   \<and> lastTime unthrottled \<noteq> 33333332
   \<and> unit_over (33333332 - lastTime unthrottled) = Some 50
   \<and> throttleTimerWait [] 33333332 unthrottled =
       Returns (unthrottled\<lparr>actualSpeed := 50, lastTime := 33333332, trace := [ActualSpeedChanged 50, Yield]\<rparr>)
   \<and> throttleTimerWait [] 0 unthrottled = Returns (unthrottled\<lparr>trace := [Yield]\<rparr>)"
  using elapsed_division_defined [of "[]" 33333332 unthrottled Division_by_zero]
    elapsed_division_defined [of "[]" 0 unthrottled Division_by_zero]
  by (simp add: unthrottled_def setThrottleMode_def EmuThread_new_def signed_divide_int_def
      setActualSpeed_def emit_def)

section \<open>The gate\<close>

lemma step_progress:
  "step t g = Some g' \<Longrightarrow> progress g < progress g'"
  by (cases t; cases "emu_at g"; cases "ctl_at g")
     (auto simp: step_def emu_step_def ctl_step_def spurious_step_def progress_def emu_rank_def
        ctl_rank_def split: if_splits)

lemma progress_le: "progress g \<le> 11"
  by (cases "emu_at g"; cases "ctl_at g") (simp_all add: progress_def emu_rank_def ctl_rank_def)

lemma step_in_gate:
  "in_gate n g \<Longrightarrow> step t g = Some g' \<Longrightarrow> in_gate n g'"
  by (cases t; cases "emu_at g"; cases "ctl_at g")
     (auto simp: step_def emu_step_def ctl_step_def spurious_step_def in_gate_def ctl_mutex_def
        emu_mutex_def split: if_splits)

lemma step_notified:
  "in_gate n g \<Longrightarrow> notified g \<Longrightarrow> t \<noteq> Spurious \<Longrightarrow> step t g = Some g' \<Longrightarrow> notified g'"
  by (cases t; cases "emu_at g"; cases "ctl_at g")
     (auto simp: step_def emu_step_def ctl_step_def in_gate_def ctl_mutex_def emu_mutex_def
        notified_def split: if_splits)

lemma in_gate_enabled:
  "in_gate n g \<Longrightarrow> emu_at g \<noteq> E_end \<or> ctl_at g \<noteq> U_end \<Longrightarrow> step Emu g \<noteq> None \<or> step Ctl g \<noteq> None"
  by (cases "emu_at g"; cases "ctl_at g")
     (auto simp: step_def emu_step_def ctl_step_def in_gate_def ctl_mutex_def emu_mutex_def
        split: if_splits)

lemma schedule_run_in_gate:
  "in_gate n g \<Longrightarrow> schedule_run sched g = Some g' \<Longrightarrow> in_gate n g' \<and> progress g + length sched \<le> progress g'"
proof (induction sched arbitrary: g)
  case Nil
  then show ?case by simp
next
  case (Cons t sched)
  from Cons.prems(2) obtain g1 where s: "step t g = Some g1" and r: "schedule_run sched g1 = Some g'"
    by (auto split: option.splits)
  have "in_gate n g1" by (rule step_in_gate [OF Cons.prems(1) s])
  from Cons.IH [OF this r] step_progress [OF s] show ?case by simp
qed

lemma schedule_run_notified:
  "in_gate n g \<Longrightarrow> notified g \<Longrightarrow> Spurious \<notin> set sched \<Longrightarrow> schedule_run sched g = Some g'
     \<Longrightarrow> notified g'"
proof (induction sched arbitrary: g)
  case Nil
  then show ?case by simp
next
  case (Cons t sched)
  from Cons.prems(4) obtain g1 where s: "step t g = Some g1" and r: "schedule_run sched g1 = Some g'"
    by (auto split: option.splits)
  have t: "t \<noteq> Spurious" and rest: "Spurious \<notin> set sched" using Cons.prems(3) by auto
  have i1: "in_gate n g1" by (rule step_in_gate [OF Cons.prems(1) s])
  have n1: "notified g1" by (rule step_notified [OF Cons.prems(1,2) t s])
  show ?case by (rule Cons.IH [OF i1 n1 rest r])
qed

text \<open>
  C3, as the claim states it, fails: the gate does not record a signal. After
  \<^verbatim>\<open>receive()\<close>, let \<^verbatim>\<open>unlock()\<close> run to its end before \<^verbatim>\<open>doStuff\<close> tests the flag. Its
  \<^verbatim>\<open>notify_all\<close> finds no waiting thread and leaves no trace: but for the position of
  the controller thread, the gate is in the state it would be in had \<^verbatim>\<open>unlock()\<close> never
  been called. \<^verbatim>\<open>doStuff\<close> emits \<^verbatim>\<open>receiveReady\<close> and suspends in \<^verbatim>\<open>cv.wait\<close>, and neither
  thread can take a step any more: the wait has not returned, the request is still
  pending, and the wait ends only if the thread happens to wake up without a
  notification, which nothing in the program brings about.
\<close>

theorem signal_before_gate_is_lost:
  "schedule_run [Ctl, Ctl, Ctl, Emu, Emu, Emu, Emu] gate_requested =
     Some \<lparr>emu_at = E_suspended, ctl_at = U_end, mutex = None, pending = True,
           ready_emitted = 1, wait_returned = 0\<rparr>
   \<and> schedule_run [Emu, Emu, Emu, Emu] gate_requested =
     Some \<lparr>emu_at = E_suspended, ctl_at = U_lock, mutex = None, pending = True,
           ready_emitted = 1, wait_returned = 0\<rparr>
   \<and> step Emu \<lparr>emu_at = E_suspended, ctl_at = U_end, mutex = None, pending = True,
           ready_emitted = 1, wait_returned = 0\<rparr> = None
   \<and> step Ctl \<lparr>emu_at = E_suspended, ctl_at = U_end, mutex = None, pending = True,
           ready_emitted = 1, wait_returned = 0\<rparr> = None
   \<and> step Spurious \<lparr>emu_at = E_suspended, ctl_at = U_end, mutex = None, pending = True,
           ready_emitted = 1, wait_returned = 0\<rparr> =
     Some \<lparr>emu_at = E_woken, ctl_at = U_end, mutex = None, pending = True,
           ready_emitted = 1, wait_returned = 0\<rparr>"
  by (simp add: gate_requested_def step_def emu_step_def ctl_step_def spurious_step_def)

text \<open>
  C3, amended. For every receive cycle, if \<^verbatim>\<open>receive()\<close> has set the pending flag and
  \<^verbatim>\<open>unlock()\<close> is called once \<^verbatim>\<open>doStuff\<close> has locked the mutex, as a call made in answer
  to \<^verbatim>\<open>receiveReady\<close> is, the emulator thread does not stay blocked and \<^verbatim>\<open>cv.wait\<close> returns
  exactly once, also when \<^verbatim>\<open>unlock()\<close> is called before the emulator thread has reached
  \<^verbatim>\<open>cv.wait\<close>: \<^verbatim>\<open>unlock()\<close> then waits for the mutex, which \<^verbatim>\<open>cv.wait\<close> releases. Under every
  schedule, with or without a wake-up that no notification caused, at most nine steps
  are taken; until both \<^verbatim>\<open>doStuff\<close> has passed the gate and \<^verbatim>\<open>unlock()\<close> has returned, one
  of the two threads can take a step; and when \<^verbatim>\<open>doStuff\<close> has passed the gate, \<^verbatim>\<open>cv.wait\<close>
  has returned exactly once and the flag is cleared. If no such wake-up occurs, the
  emulator thread leaves its suspension only after the \<^verbatim>\<open>notify_all\<close> of \<^verbatim>\<open>unlock()\<close>, and
  passes the gate only after \<^verbatim>\<open>unlock()\<close> has returned; with one, it may pass the gate
  before \<^verbatim>\<open>unlock()\<close> has notified, and the notification then wakes nobody.
\<close>

theorem gate_opens_once:
  assumes "emu_at g0 = E_emit" and "mutex g0 = Some Emu" and "ctl_at g0 = U_lock" and "pending g0"
    and "schedule_run sched g0 = Some g"
  shows "length sched \<le> 9
     \<and> wait_returned g \<le> Suc (wait_returned g0)
     \<and> (emu_at g = E_end \<longrightarrow> wait_returned g = Suc (wait_returned g0) \<and> \<not> pending g)
     \<and> (emu_at g \<noteq> E_end \<or> ctl_at g \<noteq> U_end \<longrightarrow> step Emu g \<noteq> None \<or> step Ctl g \<noteq> None)
     \<and> (Spurious \<notin> set sched \<longrightarrow>
          (emu_at g \<in> {E_woken, E_clear, E_unlock, E_end} \<longrightarrow> ctl_at g \<in> {U_unlock, U_end})
          \<and> (emu_at g = E_end \<longrightarrow> ctl_at g = U_end))"
proof -
  have i0: "in_gate (wait_returned g0) g0" using assms(1-4) by (simp add: in_gate_def)
  have n0: "notified g0" using assms(1) by (simp add: notified_def)
  have p0: "progress g0 = 2" using assms(1,3) by (simp add: progress_def emu_rank_def ctl_rank_def)
  from schedule_run_in_gate [OF i0 assms(5)] have i: "in_gate (wait_returned g0) g"
    and l: "progress g0 + length sched \<le> progress g" by simp_all
  have "length sched \<le> 9" using l p0 progress_le [of g] by simp
  moreover have "wait_returned g \<le> Suc (wait_returned g0)"
    using i by (cases "emu_at g") (auto simp: in_gate_def)
  moreover have "wait_returned g = Suc (wait_returned g0) \<and> \<not> pending g"
    if "emu_at g = E_end" using i that by (simp add: in_gate_def)
  moreover have "step Emu g \<noteq> None \<or> step Ctl g \<noteq> None"
    if "emu_at g \<noteq> E_end \<or> ctl_at g \<noteq> U_end"
    by (rule in_gate_enabled [OF i that])
  moreover have "(emu_at g \<in> {E_woken, E_clear, E_unlock, E_end} \<longrightarrow> ctl_at g \<in> {U_unlock, U_end})
          \<and> (emu_at g = E_end \<longrightarrow> ctl_at g = U_end)"
    if "Spurious \<notin> set sched"
  proof -
    have "notified g" by (rule schedule_run_notified [OF i0 n0 that assms(5)])
    then show ?thesis by (cases "emu_at g") (auto simp: notified_def)
  qed
  ultimately show ?thesis by blast
qed

text \<open>
  \<^verbatim>\<open>doStuff\<close> reaches the gate when it runs first. From there \<^verbatim>\<open>unlock()\<close> cannot take its
  first step before \<^verbatim>\<open>cv.wait\<close> has released the mutex. In the first run to the end the
  notification wakes the emulator thread; in the second the thread wakes up by itself
  and passes the gate before \<^verbatim>\<open>unlock()\<close> starts, which takes the whole nine steps.
\<close>

theorem gate_opens_once_witness:
  "schedule_run [Emu, Emu] gate_requested = Some gate_entered
   \<and> emu_at gate_entered = E_emit \<and> mutex gate_entered = Some Emu
   \<and> ctl_at gate_entered = U_lock \<and> pending gate_entered
   \<and> schedule_run [Emu, Emu, Ctl, Ctl, Ctl, Emu, Emu, Emu] gate_entered =
       Some \<lparr>emu_at = E_end, ctl_at = U_end, mutex = None, pending = False,
             ready_emitted = 1, wait_returned = 1\<rparr>
   \<and> Spurious \<notin> set [Emu, Emu, Ctl, Ctl, Ctl, Emu, Emu, Emu]
   \<and> schedule_run [Emu, Emu, Spurious, Emu, Emu, Emu, Ctl, Ctl, Ctl] gate_entered =
       Some \<lparr>emu_at = E_end, ctl_at = U_end, mutex = None, pending = False,
             ready_emitted = 1, wait_returned = 1\<rparr>
   \<and> schedule_run [Emu, Emu, Spurious, Emu, Emu, Emu] gate_entered =
       Some \<lparr>emu_at = E_end, ctl_at = U_lock, mutex = None, pending = False,
             ready_emitted = 1, wait_returned = 1\<rparr>
   \<and> step Ctl \<lparr>emu_at = E_end, ctl_at = U_lock, mutex = None, pending = False,
             ready_emitted = 1, wait_returned = 1\<rparr> \<noteq> None
   \<and> length [Emu, Emu, Spurious, Emu, Emu, Emu, Ctl, Ctl, Ctl] \<le> 9
   \<and> wait_returned \<lparr>emu_at = E_end, ctl_at = U_end, mutex = None, pending = False,
             ready_emitted = 1, wait_returned = 1\<rparr> = Suc (wait_returned gate_entered)"
proof -
  have a: "emu_at gate_entered = E_emit" "mutex gate_entered = Some Emu"
    "ctl_at gate_entered = U_lock" "pending gate_entered"
    by (simp_all add: gate_entered_def gate_requested_def)
  have r1: "schedule_run [Emu, Emu, Ctl, Ctl, Ctl, Emu, Emu, Emu] gate_entered =
       Some \<lparr>emu_at = E_end, ctl_at = U_end, mutex = None, pending = False,
             ready_emitted = 1, wait_returned = 1\<rparr>"
    by (simp add: gate_entered_def gate_requested_def step_def emu_step_def ctl_step_def)
  have r2: "schedule_run [Emu, Emu, Spurious, Emu, Emu, Emu, Ctl, Ctl, Ctl] gate_entered =
       Some \<lparr>emu_at = E_end, ctl_at = U_end, mutex = None, pending = False,
             ready_emitted = 1, wait_returned = 1\<rparr>"
    by (simp add: gate_entered_def gate_requested_def step_def emu_step_def ctl_step_def
        spurious_step_def)
  have r3: "schedule_run [Emu, Emu, Spurious, Emu, Emu, Emu] gate_entered =
       Some \<lparr>emu_at = E_end, ctl_at = U_lock, mutex = None, pending = False,
             ready_emitted = 1, wait_returned = 1\<rparr>"
    by (simp add: gate_entered_def gate_requested_def step_def emu_step_def ctl_step_def
        spurious_step_def)
  have e: "schedule_run [Emu, Emu] gate_requested = Some gate_entered"
    by (simp add: gate_entered_def gate_requested_def step_def emu_step_def ctl_step_def)
  have c: "step Ctl \<lparr>emu_at = E_end, ctl_at = U_lock, mutex = None, pending = False,
             ready_emitted = 1, wait_returned = 1\<rparr> \<noteq> None"
    by (simp add: step_def ctl_step_def)
  have w: "wait_returned gate_entered = 0" by (simp add: gate_entered_def gate_requested_def)
  show ?thesis
    using gate_opens_once [OF a r1] gate_opens_once [OF a r2] gate_opens_once [OF a r3]
      a r1 r2 r3 e w c
    by simp
qed

end
